theory Spec2Isabelle
  imports Main
begin

section \<open>Data model (credits/enums.py, credits/models.py)\<close>

datatype TxStatus = PENDING | COMMITTED | REVERSED

datatype TxType = DEBIT | CREDIT | REFUND

text \<open>
  \<open>Wallet\<close>: the primary key is the key of the table below; \<open>updated_at\<close> is left
  out, since every write to a wallet goes through \<open>QuerySet.update\<close>, which does not touch it.
  \<open>balance\<close> and \<open>delta\<close> are unbounded integers, as in Python; the 64-bit range of
  the \<open>BigIntegerField\<close> columns is not modelled.
\<close>

record Wallet =
  name :: string
  balance :: int

text \<open>\<open>CreditTransaction\<close>: one ledger row. \<open>created_at\<close> counts microseconds.\<close>

record CreditTransaction =
  pk :: nat
  wallet_id :: nat
  delta :: int
  tx_type :: TxType
  tx_status :: TxStatus
  idempotency_key :: "string option"
  request_id :: "string option"
  "note" :: string
  created_at :: int

text \<open>
  The store: the wallet table keyed by id, the ledger in insertion order, and the sequence
  that hands out ledger ids.
\<close>

record db =
  wallets :: "nat \<rightharpoonup> Wallet"
  txs :: "CreditTransaction list"
  next_pk :: nat

text \<open>
  What can be raised. \<open>ValueError\<close> is the error the specification calls InvalidAmount;
  \<open>DataError\<close> is what the database raises for a string longer than its column.
  \<open>ViewError\<close> stands for any other \<open>Exception\<close> raised by a wrapped view.
  \<open>SystemExit\<close> and \<open>KeyboardInterrupt\<close> derive from \<open>BaseException\<close> only: a clause
  \<open>except Exception\<close> does not catch them.
\<close>

datatype exn =
    ValueError
  | InsufficientCredits
  | DoesNotExist
  | MultipleObjectsReturned
  | IntegrityError
  | DataError
  | ViewError string
  | SystemExit
  | KeyboardInterrupt

fun is_Exception :: "exn \<Rightarrow> bool" where
  "is_Exception SystemExit = False"
| "is_Exception KeyboardInterrupt = False"
| "is_Exception e = True"

type_synonym 'a result = "(exn + 'a) \<times> db"

section \<open>The ORM calls the services use\<close>

text \<open>
  \<open>transaction.atomic()\<close> left by an exception: the tables are restored; the id sequence
  is not transactional and keeps the values it handed out.
\<close>

definition rollback :: "db \<Rightarrow> db \<Rightarrow> db" where
  "rollback s0 s1 = s0\<lparr>next_pk := next_pk s1\<rparr>"

text \<open>\<open>CreditTransaction.objects.create(...)\<close>: the row gets the next id and is appended.\<close>

definition objects_create ::
  "db \<Rightarrow> nat \<Rightarrow> int \<Rightarrow> TxType \<Rightarrow> TxStatus \<Rightarrow> string option \<Rightarrow> string option \<Rightarrow> string \<Rightarrow> int
     \<Rightarrow> CreditTransaction \<times> db" where
  "objects_create s w d ty st key rid nt now =
     (let t = \<lparr>pk = next_pk s, wallet_id = w, delta = d, tx_type = ty, tx_status = st,
                idempotency_key = key, request_id = rid, note = nt, created_at = now\<rparr>
      in (t, s\<lparr>txs := txs s @ [t], next_pk := Suc (next_pk s)\<rparr>))"

text \<open>\<open>QuerySet.get\<close>: exactly one matching row, or one of the two exceptions.\<close>

definition objects_get :: "(CreditTransaction \<Rightarrow> bool) \<Rightarrow> db \<Rightarrow> exn + CreditTransaction" where
  "objects_get P s =
     (case filter P (txs s) of
        [] \<Rightarrow> Inl DoesNotExist
      | [t] \<Rightarrow> Inr t
      | _ \<Rightarrow> Inl MultipleObjectsReturned)"

text \<open>\<open>save(update_fields=[...])\<close>: UPDATE of the listed columns WHERE id = pk.\<close>

definition save_status :: "db \<Rightarrow> nat \<Rightarrow> TxStatus \<Rightarrow> db" where
  "save_status s p st =
     s\<lparr>txs := map (\<lambda>t. if pk t = p then t\<lparr>tx_status := st\<rparr> else t) (txs s)\<rparr>"

definition save_status_note :: "db \<Rightarrow> nat \<Rightarrow> TxStatus \<Rightarrow> string \<Rightarrow> db" where
  "save_status_note s p st nt =
     s\<lparr>txs := map (\<lambda>t. if pk t = p then t\<lparr>tx_status := st, note := nt\<rparr> else t) (txs s)\<rparr>"

text \<open>\<open>Wallet.objects.filter(id=w).update(balance=F("balance") + n)\<close>.\<close>

definition add_balance :: "db \<Rightarrow> nat \<Rightarrow> int \<Rightarrow> db" where
  "add_balance s w n =
     (case wallets s w of
        None \<Rightarrow> s
      | Some W \<Rightarrow> s\<lparr>wallets := (wallets s)(w \<mapsto> W\<lparr>balance := balance W + n\<rparr>)\<rparr>)"

section \<open>ReserveCreditsService (credits/services/reserve_credits.py)\<close>

definition validate_amount :: "int \<Rightarrow> exn + unit" where
  "validate_amount amount = (if amount \<le> 0 then Inl ValueError else Inr ())"

text \<open>\<open>_create_tx\<close> with \<open>_tx_defaults\<close>: a PENDING DEBIT of \<open>-amount\<close> without a key.\<close>

definition create_tx ::
  "db \<Rightarrow> nat \<Rightarrow> int \<Rightarrow> string option \<Rightarrow> string \<Rightarrow> int \<Rightarrow> CreditTransaction \<times> db" where
  "create_tx s w amount rid nt now =
     objects_create s w (- amount) DEBIT PENDING None rid nt now"

text \<open>
  \<open>_get_or_create_tx\<close>: look the pair (wallet, key) up; create the PENDING DEBIT with that
  key when there is none. The flag tells whether the row was created.
\<close>

definition get_or_create_tx ::
  "db \<Rightarrow> nat \<Rightarrow> int \<Rightarrow> string \<Rightarrow> string option \<Rightarrow> string \<Rightarrow> int
     \<Rightarrow> (CreditTransaction \<times> bool) result" where
  "get_or_create_tx s w amount key rid nt now =
     (case objects_get (\<lambda>t. wallet_id t = w \<and> idempotency_key t = Some key) s of
        Inr t \<Rightarrow> (Inr (t, False), s)
      | Inl DoesNotExist \<Rightarrow>
          (case objects_create s w (- amount) DEBIT PENDING (Some key) rid nt now of
             (t, s1) \<Rightarrow> (Inr (t, True), s1))
      | Inl e \<Rightarrow> (Inl e, s))"

text \<open>
  \<open>_conditional_decrement\<close>: the single UPDATE guarded by \<open>balance >= amount\<close>; returns
  the number of rows it changed.
\<close>

definition conditional_decrement :: "db \<Rightarrow> nat \<Rightarrow> int \<Rightarrow> nat \<times> db" where
  "conditional_decrement s w amount =
     (case wallets s w of
        None \<Rightarrow> (0, s)
      | Some W \<Rightarrow>
          if amount \<le> balance W
          then (1, s\<lparr>wallets := (wallets s)(w \<mapsto> W\<lparr>balance := balance W - amount\<rparr>)\<rparr>)
          else (0, s))"

text \<open>Python truthiness of an \<open>Optional[str]\<close>: \<open>None\<close> and the empty string are false.\<close>

definition truthy :: "string option \<Rightarrow> bool" where
  "truthy key = (case key of None \<Rightarrow> False | Some k \<Rightarrow> k \<noteq> [])"

text \<open>\<open>ReserveCreditsService.__call__\<close>.\<close>

definition ReserveCreditsService ::
  "db \<Rightarrow> nat \<Rightarrow> int \<Rightarrow> string option \<Rightarrow> string option \<Rightarrow> string \<Rightarrow> int
     \<Rightarrow> CreditTransaction result" where
  "ReserveCreditsService s w amount key rid nt now =
     (case validate_amount amount of
        Inl e \<Rightarrow> (Inl e, s)
      | Inr _ \<Rightarrow>
          (case (if truthy key
                 then get_or_create_tx s w amount (the key) rid nt now
                 else (case create_tx s w amount rid nt now of
                         (t, s1) \<Rightarrow> (Inr (t, True), s1))) of
             (Inl e, s1) \<Rightarrow> (Inl e, rollback s s1)
           | (Inr (t, created), s1) \<Rightarrow>
               if \<not> created then (Inr t, s1)
               else (case conditional_decrement s1 w amount of
                       (updated, s2) \<Rightarrow>
                         if updated = 0 then (Inl InsufficientCredits, rollback s s2)
                         else (Inr t, s2))))"

section \<open>commit_reservation (credits/services/commit_reservation.py)\<close>

definition commit_reservation :: "db \<Rightarrow> nat \<Rightarrow> CreditTransaction result" where
  "commit_reservation s p =
     (case objects_get (\<lambda>t. pk t = p) s of
        Inl e \<Rightarrow> (Inl e, s)
      | Inr pending \<Rightarrow>
          if tx_status pending \<noteq> PENDING then (Inr pending, s)
          else (Inr (pending\<lparr>tx_status := COMMITTED\<rparr>), save_status s p COMMITTED))"

section \<open>reverse_reservation (credits/services/reverse_reservation.py)\<close>

text \<open>\<open>str\<close> of an integer, as an f-string formats it.\<close>

definition digit_char :: "nat \<Rightarrow> char" where
  "digit_char d = ''0123456789'' ! d"

function str_of_nat :: "nat \<Rightarrow> string" where
  "str_of_nat n =
     (if n < 10 then [digit_char n] else str_of_nat (n div 10) @ [digit_char (n mod 10)])"
  by pat_completeness auto
termination
  by (relation "measure id") auto

declare str_of_nat.simps [simp del]

definition str_of_int :: "int \<Rightarrow> string" where
  "str_of_int i = (if i < 0 then CHR ''-'' # str_of_nat (nat (- i)) else str_of_nat (nat i))"

text \<open>
  The foreign key \<open>CreditTransaction.wallet\<close> (models.py): a transaction that has
  inserted a row for a wallet that does not exist cannot commit; the atomic block raises
  \<open>IntegrityError\<close> and is undone.
\<close>

definition fk_check :: "db \<Rightarrow> db \<Rightarrow> nat \<Rightarrow> CreditTransaction \<Rightarrow> CreditTransaction result" where
  "fk_check s0 s1 w r =
     (if wallets s1 w = None then (Inl IntegrityError, rollback s0 s1) else (Inr r, s1))"

text \<open>
  The column \<open>note\<close> holds 240 characters (models.py): writing a longer string raises
  \<open>DataError\<close> and the atomic block is undone. \<open>reverse_reservation\<close> writes two notes:
  the reason itself, and the refund note it composes from the row id and the reason, which
  can be too long for a reason that fits. The id column is a 64-bit integer, so the decimal
  text of an id has at most 19 characters; ids are unbounded here, and the check counts at
  most 19 characters for the id. The notes, keys and request ids that callers pass to the
  other services are taken to fit their columns.
\<close>

definition note_fits :: "string \<Rightarrow> bool" where
  "note_fits nt = (length nt \<le> 240)"

definition refund_note_fits :: "nat \<Rightarrow> string \<Rightarrow> bool" where
  "refund_note_fits p reason =
     (length ''refund of tx '' + min 19 (length (str_of_nat p)) + length '': '' + length reason
        \<le> 240)"

definition reverse_reservation :: "db \<Rightarrow> nat \<Rightarrow> string \<Rightarrow> int \<Rightarrow> CreditTransaction result" where
  "reverse_reservation s p reason now =
     (case objects_get (\<lambda>t. pk t = p) s of
        Inl e \<Rightarrow> (Inl e, s)
      | Inr cur \<Rightarrow>
          if tx_status cur \<noteq> PENDING then (Inr cur, s)
          else if \<not> note_fits reason then (Inl DataError, s)
          else
            (let s1 = save_status_note s p REVERSED reason;
                 s2 = add_balance s1 (wallet_id cur) (- delta cur);
                 (refund, s3) =
                    objects_create s2 (wallet_id cur) (- delta cur) REFUND COMMITTED None None
                      (''refund of tx '' @ str_of_nat (pk cur) @ '': '' @ reason) now
             in if \<not> refund_note_fits (pk cur) reason then (Inl DataError, rollback s s3)
                else fk_check s s3 (wallet_id cur)
                       (cur\<lparr>tx_status := REVERSED, note := reason\<rparr>)))"

section \<open>top_up (credits/services/top_up.py)\<close>

definition top_up :: "db \<Rightarrow> nat \<Rightarrow> int \<Rightarrow> string \<Rightarrow> int \<Rightarrow> CreditTransaction result" where
  "top_up s w amount nt now =
     (if amount \<le> 0 then (Inl ValueError, s)
      else
        (let s1 = add_balance s w amount;
             (t, s2) = objects_create s1 w amount CREDIT COMMITTED None None nt now
         in fk_check s s2 w t))"

section \<open>sweep_stale_reservations (credits/services/sweep_stale_reservations.py)\<close>

text \<open>The filter of the scan: \<open>tx_status=PENDING, created_at__lt=cutoff\<close>.\<close>

definition stale :: "int \<Rightarrow> CreditTransaction \<Rightarrow> bool" where
  "stale cutoff t = (tx_status t = PENDING \<and> created_at t < cutoff)"

text \<open>
  The slice \<open>[:chunk_size]\<close> of a queryset: everything for \<open>None\<close>, an error for a
  negative bound.
\<close>

definition slice_to :: "int option \<Rightarrow> 'a list \<Rightarrow> exn + 'a list" where
  "slice_to chunk_size xs =
     (case chunk_size of
        None \<Rightarrow> Inr xs
      | Some c \<Rightarrow> if c < 0 then Inl ValueError else Inr (take (nat c) xs))"

text \<open>
  The \<open>for\<close> loop over a batch. \<open>clk\<close> gives the clock reading at which the row with a
  given id is inserted.
\<close>

fun reverse_each :: "db \<Rightarrow> CreditTransaction list \<Rightarrow> (nat \<Rightarrow> int) \<Rightarrow> unit result" where
  "reverse_each s [] clk = (Inr (), s)"
| "reverse_each s (t # ts) clk =
     (case reverse_reservation s (pk t) ''expired'' (clk (next_pk s)) of
        (Inl e, s1) \<Rightarrow> (Inl e, s1)
      | (Inr _, s1) \<Rightarrow> reverse_each s1 ts clk)"

text \<open>
  The \<open>while True\<close> loop, one atomic block per batch. No other transaction holds a lock in
  this sequential model, so \<open>skip_locked\<close> skips nothing.
\<close>

function sweep_loop :: "int \<Rightarrow> int option \<Rightarrow> (nat \<Rightarrow> int) \<Rightarrow> db \<Rightarrow> nat \<Rightarrow> nat result" where
  "sweep_loop cutoff chunk_size clk s tot =
     (case slice_to chunk_size (sort_key pk (filter (stale cutoff) (txs s))) of
        Inl e \<Rightarrow> (Inl e, s)
      | Inr batch \<Rightarrow>
          if batch = [] then (Inr tot, s)
          else (case reverse_each s batch clk of
                  (Inl e, s1) \<Rightarrow> (Inl e, rollback s s1)
                | (Inr _, s1) \<Rightarrow> sweep_loop cutoff chunk_size clk s1 (tot + length batch)))"
  by pat_completeness auto

text \<open>
  \<open>ttl_setting\<close> is \<open>settings.CREDIT_RESERVATION_TTL\<close> (seconds), \<open>wall\<close> is
  \<open>timezone.now()\<close>.
\<close>

definition sweep_stale_reservations ::
  "int option \<Rightarrow> int \<Rightarrow> (nat \<Rightarrow> int) \<Rightarrow> int option \<Rightarrow> int option \<Rightarrow> db \<Rightarrow> nat result" where
  "sweep_stale_reservations ttl_setting wall clk now chunk_size s =
     (let ttl = (case ttl_setting of None \<Rightarrow> 300 | Some v \<Rightarrow> v);
          now' = (case now of None \<Rightarrow> wall | Some n \<Rightarrow> n);
          cutoff = now' - ttl * 1000000
      in sweep_loop cutoff chunk_size clk s 0)"

section \<open>charge_one_credit (credits/decorators.py)\<close>

record HttpRequest =
  wallet :: "nat option"
  idempotency_header :: "string option"

text \<open>\<open>status_code\<close> is \<open>None\<close> for a response object without that attribute.\<close>

record HttpResponse =
  status_code :: "int option"
  content :: string

definition JsonResponse_detail :: "string \<Rightarrow> int \<Rightarrow> HttpResponse" where
  "JsonResponse_detail d st =
     \<lparr>status_code = Some st,
      content = ''{'' @ [CHR 0x22] @ ''detail'' @ [CHR 0x22] @ '': '' @ [CHR 0x22] @ d @ [CHR 0x22] @ ''}''\<rparr>"

definition response_code :: "HttpResponse \<Rightarrow> int" where
  "response_code response = (case status_code response of None \<Rightarrow> 500 | Some c \<Rightarrow> c)"

text \<open>
  The wrapped view of \<open>charge_one_credit(get_wallet)(view_func)\<close>. A view is a function of
  the request and the store that returns a response or raises; only what \<open>except Exception\<close>
  catches is reversed, anything else passes through the wrapper as it is. \<open>uuid\<close> is
  the fresh request id; \<open>now\<close> and \<open>later\<close> are the clock readings of the reservation and
  of its reversal.
\<close>

definition charge_one_credit ::
  "(HttpRequest \<Rightarrow> nat option) \<Rightarrow> (HttpRequest \<Rightarrow> db \<Rightarrow> HttpResponse result)
     \<Rightarrow> string \<Rightarrow> int \<Rightarrow> int \<Rightarrow> HttpRequest \<Rightarrow> db \<Rightarrow> HttpResponse result" where
  "charge_one_credit get_wallet view_func uuid now later request s =
     (case get_wallet request of
        None \<Rightarrow> (Inr (JsonResponse_detail ''API key required'' 401), s)
      | Some w \<Rightarrow>
          (case ReserveCreditsService s w 1 (idempotency_header request) (Some uuid)
                  ''api-request'' now of
             (Inl InsufficientCredits, s1) \<Rightarrow>
               (Inr (JsonResponse_detail ''Insufficient credits'' 402), s1)
           | (Inl e, s1) \<Rightarrow> (Inl e, s1)
           | (Inr tx, s1) \<Rightarrow>
               (case view_func request s1 of
                  (Inl e, s2) \<Rightarrow>
                    if is_Exception e
                    then (case reverse_reservation s2 (pk tx) ''exception'' later of
                            (Inl e', s3) \<Rightarrow> (Inl e', s3)
                          | (Inr _, s3) \<Rightarrow> (Inl e, s3))
                    else (Inl e, s2)
                | (Inr response, s2) \<Rightarrow>
                    if 200 \<le> response_code response \<and> response_code response < 400
                    then (case commit_reservation s2 (pk tx) of
                            (Inl e', s3) \<Rightarrow> (Inl e', s3)
                          | (Inr _, s3) \<Rightarrow> (Inr response, s3))
                    else (case reverse_reservation s2 (pk tx)
                                 (''http '' @ str_of_int (response_code response)) later of
                            (Inl e', s3) \<Rightarrow> (Inl e', s3)
                          | (Inr _, s3) \<Rightarrow> (Inr response, s3)))))"

section \<open>Sequences of service calls\<close>

datatype call =
    Reserve nat int "string option" "string option" string int
  | Commit nat
  | Reverse nat string int
  | TopUp nat int string int
  | Sweep "int option" int "nat \<Rightarrow> int" "int option" "int option"

fun exec_call :: "db \<Rightarrow> call \<Rightarrow> db" where
  "exec_call s (Reserve w amount key rid nt now) =
     snd (ReserveCreditsService s w amount key rid nt now)"
| "exec_call s (Commit p) = snd (commit_reservation s p)"
| "exec_call s (Reverse p reason now) = snd (reverse_reservation s p reason now)"
| "exec_call s (TopUp w amount nt now) = snd (top_up s w amount nt now)"
| "exec_call s (Sweep ttl_setting wall clk now chunk_size) =
     snd (sweep_stale_reservations ttl_setting wall clk now chunk_size s)"

definition run :: "db \<Rightarrow> call list \<Rightarrow> db" where
  "run s calls = foldl exec_call s calls"

text \<open>
  A consistent store: the ledger is listed in id order with ids below the sequence, and
  every row belongs to a wallet of the wallet table (primary and foreign key).
\<close>

definition consistent :: "db \<Rightarrow> bool" where
  "consistent s =
     (sorted_wrt (<) (map pk (txs s)) \<and>
      list_all (\<lambda>t. pk t < next_pk s \<and> wallets s (wallet_id t) \<noteq> None) (txs s))"

section \<open>Notions used to state the properties\<close>

text \<open>The row a reversal inserts and the store it leaves.\<close>

definition refund_row :: "db \<Rightarrow> CreditTransaction \<Rightarrow> string \<Rightarrow> int \<Rightarrow> CreditTransaction" where
  "refund_row s cur reason now =
     \<lparr>pk = next_pk s, wallet_id = wallet_id cur, delta = - delta cur, tx_type = REFUND,
      tx_status = COMMITTED, idempotency_key = None, request_id = None,
      note = ''refund of tx '' @ str_of_nat (pk cur) @ '': '' @ reason, created_at = now\<rparr>"

definition reversed_db :: "db \<Rightarrow> CreditTransaction \<Rightarrow> string \<Rightarrow> int \<Rightarrow> db" where
  "reversed_db s cur reason now =
     snd (objects_create
            (add_balance (save_status_note s (pk cur) REVERSED reason) (wallet_id cur) (- delta cur))
            (wallet_id cur) (- delta cur) REFUND COMMITTED None None
            (''refund of tx '' @ str_of_nat (pk cur) @ '': '' @ reason) now)"

text \<open>The number of rows a scan with the given cutoff selects; the measure of the sweep loop.\<close>

definition stale_count :: "int \<Rightarrow> db \<Rightarrow> nat" where
  "stale_count cutoff s = length (filter (stale cutoff) (txs s))"

text \<open>The row \<open>_tx_defaults\<close> describes, with the id the sequence hands out.\<close>

definition pending_row ::
  "db \<Rightarrow> nat \<Rightarrow> int \<Rightarrow> string option \<Rightarrow> string option \<Rightarrow> string \<Rightarrow> int \<Rightarrow> CreditTransaction" where
  "pending_row s w amount key rid nt now =
     \<lparr>pk = next_pk s, wallet_id = w, delta = - amount, tx_type = DEBIT, tx_status = PENDING,
      idempotency_key = key, request_id = rid, note = nt, created_at = now\<rparr>"

text \<open>
  A call is an idempotent hit when it carries a key (not \<open>None\<close>, not empty) that a row
  of the wallet already has.
\<close>

definition key_taken :: "db \<Rightarrow> nat \<Rightarrow> string option \<Rightarrow> bool" where
  "key_taken s w key =
     (truthy key \<and> list_ex (\<lambda>t. wallet_id t = w \<and> idempotency_key t = key) (txs s))"

text \<open>The store after a reservation that found enough credits.\<close>

definition reserved_db :: "db \<Rightarrow> nat \<Rightarrow> Wallet \<Rightarrow> int \<Rightarrow> CreditTransaction \<Rightarrow> db" where
  "reserved_db s w W amount t =
     s\<lparr>txs := txs s @ [t], next_pk := Suc (next_pk s),
       wallets := (wallets s)(w \<mapsto> W\<lparr>balance := balance W - amount\<rparr>)\<rparr>"

text \<open>The key a new row is stored with: a key that is not truthy is stored as NULL.\<close>

definition stored_key :: "string option \<Rightarrow> string option" where
  "stored_key key = (if truthy key then key else None)"

text \<open>
  A row is settled when a lookup by its id does not return a PENDING row: commit and
  reverse then change nothing.
\<close>

definition settled :: "db \<Rightarrow> nat \<Rightarrow> bool" where
  "settled s p =
     (case objects_get (\<lambda>t. pk t = p) s of Inl e \<Rightarrow> True | Inr c \<Rightarrow> tx_status c \<noteq> PENDING)"

text \<open>A commit or a reverse call on a given row id.\<close>

datatype settle_call = DoCommit | DoReverse string int

fun settle :: "db \<Rightarrow> nat \<Rightarrow> settle_call \<Rightarrow> CreditTransaction result" where
  "settle s p DoCommit = commit_reservation s p"
| "settle s p (DoReverse reason now) = reverse_reservation s p reason now"

text \<open>The balance of a wallet, read as 0 for an id that has no wallet.\<close>

definition balance_of :: "db \<Rightarrow> nat \<Rightarrow> int" where
  "balance_of s w = (case wallets s w of None \<Rightarrow> 0 | Some W \<Rightarrow> balance W)"

text \<open>Every hold on the wallet, that is every PENDING row, has a delta that is not positive.\<close>

definition holds_ok :: "db \<Rightarrow> nat \<Rightarrow> bool" where
  "holds_ok s w = list_all (\<lambda>t. wallet_id t = w \<and> tx_status t = PENDING \<longrightarrow> delta t \<le> 0) (txs s)"

text \<open>The sum of \<open>|delta|\<close> over the rows of a wallet that satisfy \<open>P\<close>.\<close>

definition abs_sum :: "(CreditTransaction \<Rightarrow> bool) \<Rightarrow> CreditTransaction list \<Rightarrow> nat \<Rightarrow> int" where
  "abs_sum P xs w = sum_list (map (\<lambda>t. \<bar>delta t\<bar>) (filter (\<lambda>t. wallet_id t = w \<and> P t) xs))"

text \<open>
  The balance plus \<open>|delta|\<close> of all DEBIT rows minus \<open>|delta|\<close> of all CREDIT and
  REFUND rows.
\<close>

definition ledger_quantity :: "db \<Rightarrow> nat \<Rightarrow> int" where
  "ledger_quantity s w =
     balance_of s w + abs_sum (\<lambda>t. tx_type t = DEBIT) (txs s) w
       - abs_sum (\<lambda>t. tx_type t = CREDIT \<or> tx_type t = REFUND) (txs s) w"

text \<open>
  \<open>keeps w s s'\<close>: going from \<open>s\<close> to \<open>s'\<close> keeps the holds of wallet \<open>w\<close> well-formed,
  keeps its ledger quantity, and keeps its balance from becoming negative.
\<close>

definition keeps :: "nat \<Rightarrow> db \<Rightarrow> db \<Rightarrow> bool" where
  "keeps w s s' =
     (holds_ok s w \<longrightarrow>
        holds_ok s' w \<and> ledger_quantity s' w = ledger_quantity s w \<and>
        (0 \<le> balance_of s w \<longrightarrow> 0 \<le> balance_of s' w))"

text \<open>The quantity as the specification writes it: REVERSED DEBIT rows are not counted.\<close>

definition spec_quantity :: "db \<Rightarrow> nat \<Rightarrow> int" where
  "spec_quantity s w =
     balance_of s w
       + abs_sum (\<lambda>t. tx_type t = DEBIT \<and> tx_status t = PENDING) (txs s) w
       + abs_sum (\<lambda>t. tx_type t = DEBIT \<and> tx_status t = COMMITTED) (txs s) w
       - abs_sum (\<lambda>t. tx_type t = CREDIT \<or> tx_type t = REFUND) (txs s) w"

text \<open>The mark a sweep leaves on a row.\<close>

definition expire :: "CreditTransaction \<Rightarrow> CreditTransaction" where
  "expire t = t\<lparr>tx_status := REVERSED, note := ''expired''\<rparr>"

text \<open>The rows a reversal appends.\<close>

definition is_refund :: "CreditTransaction \<Rightarrow> bool" where
  "is_refund r = (tx_type r = REFUND \<and> tx_status r = COMMITTED)"

text \<open>The cutoff \<open>sweep_stale_reservations\<close> computes, in microseconds.\<close>

definition cutoff_of :: "int option \<Rightarrow> int \<Rightarrow> int option \<Rightarrow> int" where
  "cutoff_of ttl_setting wall now =
     (case now of None \<Rightarrow> wall | Some n \<Rightarrow> n)
       - (case ttl_setting of None \<Rightarrow> 300 | Some v \<Rightarrow> v) * 1000000"

section \<open>Concrete stores and requests\<close>

text \<open>A wallet with ten credits and an empty ledger, used for the concrete instances.\<close>

definition demo_db :: db where
  "demo_db = \<lparr>wallets = [7 \<mapsto> \<lparr>name = ''W'', balance = 10\<rparr>], txs = [], next_pk = 21\<rparr>"

text \<open>A ledger with one reservation of three credits held against the wallet.\<close>

definition demo_hold :: CreditTransaction where
  "demo_hold =
     \<lparr>pk = 21, wallet_id = 7, delta = - 3, tx_type = DEBIT, tx_status = PENDING,
      idempotency_key = None, request_id = None, note = ''api-request'', created_at = 100\<rparr>"

definition demo_held :: db where
  "demo_held =
     \<lparr>wallets = [7 \<mapsto> \<lparr>name = ''W'', balance = 7\<rparr>], txs = [demo_hold], next_pk = 22\<rparr>"

text \<open>
  Wallet 7 after two reservations of 3 and 2 credits; with a time to live of 300 s and the
  sweep at 400 s, the first was made one microsecond before the cutoff of 100 s and the
  second exactly at the cutoff.
\<close>

definition demo_two_holds :: db where
  "demo_two_holds =
     \<lparr>wallets = [7 \<mapsto> \<lparr>name = ''W'', balance = 5\<rparr>],
      txs = [\<lparr>pk = 21, wallet_id = 7, delta = - 3, tx_type = DEBIT, tx_status = PENDING,
               idempotency_key = None, request_id = None, note = ''api-request'',
               created_at = 99999999\<rparr>,
             \<lparr>pk = 22, wallet_id = 7, delta = - 2, tx_type = DEBIT, tx_status = PENDING,
               idempotency_key = None, request_id = None, note = ''api-request'',
               created_at = 100000000\<rparr>],
      next_pk = 23\<rparr>"

text \<open>A request of wallet 7 without idempotency key, and the reservation the wrapper makes.\<close>

definition demo_request :: HttpRequest where
  "demo_request = \<lparr>wallet = Some 7, idempotency_header = None\<rparr>"

definition demo_charge_tx :: CreditTransaction where
  "demo_charge_tx = pending_row demo_db 7 1 None (Some ''req-1'') ''api-request'' 0"

definition demo_charged :: db where
  "demo_charged = reserved_db demo_db 7 \<lparr>name = ''W'', balance = 10\<rparr> 1 demo_charge_tx"

definition demo_response :: "int \<Rightarrow> HttpResponse" where
  "demo_response c = \<lparr>status_code = Some c, content = ''body''\<rparr>"

text \<open>
  Views that answer with a given status, raise an \<open>Exception\<close>, or exit the interpreter,
  and leave the store alone.
\<close>

definition view_returning :: "int \<Rightarrow> HttpRequest \<Rightarrow> db \<Rightarrow> HttpResponse result" where
  "view_returning c req s = (Inr (demo_response c), s)"

definition view_raising :: "HttpRequest \<Rightarrow> db \<Rightarrow> HttpResponse result" where
  "view_raising req s = (Inl (ViewError ''boom''), s)"

definition view_exiting :: "HttpRequest \<Rightarrow> db \<Rightarrow> HttpResponse result" where
  "view_exiting req s = (Inl SystemExit, s)"

section \<open>Basic facts about the store operations\<close>

lemma txs_add_balance [simp]: "txs (add_balance s w n) = txs s"
  by (simp add: add_balance_def split: option.splits)

lemma next_pk_add_balance [simp]: "next_pk (add_balance s w n) = next_pk s"
  by (simp add: add_balance_def split: option.splits)

lemma wallets_add_balance:
  "wallets (add_balance s w n) v =
     (if v = w then map_option (\<lambda>W. W\<lparr>balance := balance W + n\<rparr>) (wallets s w)
      else wallets s v)"
  by (simp add: add_balance_def split: option.splits)

lemma txs_save_status [simp]:
  "txs (save_status s p st) = map (\<lambda>t. if pk t = p then t\<lparr>tx_status := st\<rparr> else t) (txs s)"
  by (simp add: save_status_def)

lemma wallets_save_status [simp]: "wallets (save_status s p st) = wallets s"
  by (simp add: save_status_def)

lemma next_pk_save_status [simp]: "next_pk (save_status s p st) = next_pk s"
  by (simp add: save_status_def)

lemma txs_save_status_note [simp]:
  "txs (save_status_note s p st nt) =
     map (\<lambda>t. if pk t = p then t\<lparr>tx_status := st, note := nt\<rparr> else t) (txs s)"
  by (simp add: save_status_note_def)

lemma wallets_save_status_note [simp]: "wallets (save_status_note s p st nt) = wallets s"
  by (simp add: save_status_note_def)

lemma next_pk_save_status_note [simp]: "next_pk (save_status_note s p st nt) = next_pk s"
  by (simp add: save_status_note_def)

lemma txs_rollback [simp]: "txs (rollback s s1) = txs s"
  by (simp add: rollback_def)

lemma wallets_rollback [simp]: "wallets (rollback s s1) = wallets s"
  by (simp add: rollback_def)

lemma next_pk_rollback [simp]: "next_pk (rollback s s1) = next_pk s1"
  by (simp add: rollback_def)

lemma objects_get_Inr: "objects_get P s = Inr t \<Longrightarrow> filter P (txs s) = [t]"
  by (auto simp: objects_get_def split: list.splits)

lemma objects_get_mem: "objects_get P s = Inr t \<Longrightarrow> t \<in> set (txs s) \<and> P t"
proof -
  assume "objects_get P s = Inr t"
  then have "filter P (txs s) = [t]" by (rule objects_get_Inr)
  then have "t \<in> set (filter P (txs s))" by simp
  then show ?thesis by simp
qed

lemma objects_get_unique:
  "objects_get P s = Inr t \<Longrightarrow> u \<in> set (txs s) \<Longrightarrow> P u \<Longrightarrow> u = t"
proof -
  assume g: "objects_get P s = Inr t" and "u \<in> set (txs s)" and "P u"
  then have "u \<in> set (filter P (txs s))" by simp
  also have "filter P (txs s) = [t]" using g by (rule objects_get_Inr)
  finally show ?thesis by simp
qed

lemma txs_reversed_db:
  "txs (reversed_db s cur reason now) =
     map (\<lambda>t. if pk t = pk cur then t\<lparr>tx_status := REVERSED, note := reason\<rparr> else t) (txs s)
       @ [refund_row s cur reason now]"
  by (simp add: reversed_db_def objects_create_def refund_row_def Let_def)

lemma wallets_reversed_db:
  "wallets (reversed_db s cur reason now) v =
     (if v = wallet_id cur
      then map_option (\<lambda>W. W\<lparr>balance := balance W - delta cur\<rparr>) (wallets s v)
      else wallets s v)"
  by (simp add: reversed_db_def objects_create_def wallets_add_balance Let_def)

lemma next_pk_reversed_db [simp]: "next_pk (reversed_db s cur reason now) = Suc (next_pk s)"
  by (simp add: reversed_db_def objects_create_def Let_def)

lemma refund_fits_note: "refund_note_fits p reason \<Longrightarrow> note_fits reason"
  by (simp add: refund_note_fits_def note_fits_def)

lemma short_reason_fits: "length reason \<le> 206 \<Longrightarrow> refund_note_fits p reason"
  by (simp add: refund_note_fits_def min_def)

lemma whole_note_fits:
  "length (''refund of tx '' @ str_of_nat p @ '': '' @ reason) \<le> 240 \<Longrightarrow> refund_note_fits p reason"
  by (simp add: refund_note_fits_def min_def)

lemma reverse_pending:
  assumes "objects_get (\<lambda>t. pk t = p) s = Inr cur" "tx_status cur = PENDING"
    "refund_note_fits p reason"
  shows "reverse_reservation s p reason now =
           fk_check s (reversed_db s cur reason now) (wallet_id cur)
             (cur\<lparr>tx_status := REVERSED, note := reason\<rparr>)"
proof -
  have p: "pk cur = p" using objects_get_mem [OF assms(1)] by simp
  have n: "note_fits reason" using assms(3) by (rule refund_fits_note)
  show ?thesis
    using assms n
    by (simp add: reverse_reservation_def reversed_db_def p Let_def split: prod.splits)
qed

lemma reverse_too_long:
  assumes "objects_get (\<lambda>t. pk t = p) s = Inr cur" "tx_status cur = PENDING"
    "\<not> refund_note_fits p reason"
  shows "reverse_reservation s p reason now =
           (Inl DataError,
            if note_fits reason then rollback s (reversed_db s cur reason now) else s)"
proof -
  have p: "pk cur = p" using objects_get_mem [OF assms(1)] by simp
  show ?thesis
    using assms
    by (simp add: reverse_reservation_def reversed_db_def p Let_def split: prod.splits)
qed

lemma reverse_not_pending:
  "objects_get (\<lambda>t. pk t = p) s = Inr cur \<Longrightarrow> tx_status cur \<noteq> PENDING \<Longrightarrow>
     reverse_reservation s p reason now = (Inr cur, s)"
  by (simp add: reverse_reservation_def)

lemma reverse_missing:
  "objects_get (\<lambda>t. pk t = p) s = Inl e \<Longrightarrow> reverse_reservation s p reason now = (Inl e, s)"
  by (simp add: reverse_reservation_def)

text \<open>What a call of \<open>reverse_reservation\<close> can do, in three cases.\<close>

lemma reverse_cases:
  obtains (noop) "snd (reverse_reservation s p reason now) = s"
  | (failed) cur e where "objects_get (\<lambda>t. pk t = p) s = Inr cur" "tx_status cur = PENDING"
      "reverse_reservation s p reason now
         = (Inl e, rollback s (reversed_db s cur reason now))"
  | (reversed) cur where "objects_get (\<lambda>t. pk t = p) s = Inr cur" "tx_status cur = PENDING"
      "wallets s (wallet_id cur) \<noteq> None"
      "reverse_reservation s p reason now
         = (Inr (cur\<lparr>tx_status := REVERSED, note := reason\<rparr>), reversed_db s cur reason now)"
      "refund_note_fits p reason"
proof (cases "objects_get (\<lambda>t. pk t = p) s")
  case (Inl e)
  then show ?thesis using noop by (simp add: reverse_missing)
next
  case (Inr cur)
  show ?thesis
  proof (cases "tx_status cur = PENDING")
    case False
    then show ?thesis using noop Inr by (simp add: reverse_not_pending)
  next
    case True
    show ?thesis
    proof (cases "refund_note_fits p reason")
      case fits: False
      note tl = reverse_too_long [OF Inr True fits, of now]
      show ?thesis
      proof (cases "note_fits reason")
        case False
        then show ?thesis using noop tl by simp
      next
        case True
        then show ?thesis using failed [OF Inr \<open>tx_status cur = PENDING\<close>] tl by simp
      qed
    next
      case fits: True
      note rp = reverse_pending [OF Inr True fits, of now]
      show ?thesis
      proof (cases "wallets s (wallet_id cur)")
        case None
        then show ?thesis using failed [OF Inr True] rp
          by (simp add: fk_check_def wallets_reversed_db)
      next
        case (Some W)
        then show ?thesis using reversed [OF Inr True _ _ fits] rp
          by (simp add: fk_check_def wallets_reversed_db)
      qed
    qed
  qed
qed

section \<open>Amounts that are not positive\<close>

text \<open>
  Claim C9. For every wallet and every amount that is zero or negative, reserve fails with
  the invalid-amount error (\<open>ValueError\<close> in the code) and has no effect at all: the store,
  including the id sequence, is the one it was called on.
\<close>

theorem reserve_invalid_amount:
  "amount \<le> 0 \<Longrightarrow> ReserveCreditsService s w amount key rid nt now = (Inl ValueError, s)"
  by (simp add: ReserveCreditsService_def validate_amount_def)

theorem reserve_invalid_amount_witness:
  "(0::int) \<le> 0 \<and>
   ReserveCreditsService demo_db 7 0 None None ''api-request'' 0 = (Inl ValueError, demo_db)"
  using reserve_invalid_amount [of 0 demo_db 7 None None "''api-request''" 0] by simp

section \<open>The sweep loop terminates\<close>

lemma next_pk_fk_check: "next_pk (snd (fk_check s0 s1 w r)) = next_pk s1"
  by (simp add: fk_check_def)

lemma filter_map_le:
  assumes "\<And>x. P (f x) \<Longrightarrow> P x"
  shows "length (filter P (map f xs)) \<le> length (filter P xs)"
proof (induction xs)
  case Nil
  then show ?case by simp
next
  case (Cons a xs)
  have "P (f a) \<Longrightarrow> P a" using assms .
  then show ?case using Cons by (cases "P (f a)"; simp)
qed

lemma filter_map_less:
  "(\<And>x. P (f x) \<Longrightarrow> P x) \<Longrightarrow> x \<in> set xs \<Longrightarrow> P x \<Longrightarrow> \<not> P (f x)
     \<Longrightarrow> length (filter P (map f xs)) < length (filter P xs)"
proof (induction xs)
  case Nil
  then show ?case by simp
next
  case (Cons a xs)
  have le: "length (filter P (map f xs)) \<le> length (filter P xs)"
    using Cons.prems(1) by (rule filter_map_le)
  show ?case
  proof (cases "x = a")
    case True
    have "P (f a) \<Longrightarrow> P a" using Cons.prems(1) .
    then show ?thesis using True Cons.prems(3,4) le by (cases "P (f a)"; simp)
  next
    case False
    then have lt: "length (filter P (map f xs)) < length (filter P xs)"
      using Cons by simp
    have "P (f a) \<Longrightarrow> P a" using Cons.prems(1) .
    then show ?thesis using lt by (cases "P (f a)"; cases "P a"; simp)
  qed
qed

lemma stale_mark:
  "stale cutoff (if pk t = p then t\<lparr>tx_status := REVERSED, note := reason\<rparr> else t)
     \<Longrightarrow> stale cutoff t"
  by (simp add: stale_def split: if_splits)

lemma not_stale_refund [simp]: "\<not> stale cutoff (refund_row s cur reason now)"
  by (simp add: stale_def refund_row_def)

lemma stale_count_reversed_db_le:
  "stale_count cutoff (reversed_db s cur reason now) \<le> stale_count cutoff s"
proof -
  let ?f = "\<lambda>t. if pk t = pk cur then t\<lparr>tx_status := REVERSED, note := reason\<rparr> else t"
  have "length (filter (stale cutoff) (map ?f (txs s))) \<le> length (filter (stale cutoff) (txs s))"
    by (rule filter_map_le) (rule stale_mark)
  then show ?thesis by (simp add: stale_count_def txs_reversed_db)
qed

lemma stale_count_reversed_db_less:
  assumes "cur \<in> set (txs s)" "stale cutoff cur"
  shows "stale_count cutoff (reversed_db s cur reason now) < stale_count cutoff s"
proof -
  let ?f = "\<lambda>t. if pk t = pk cur then t\<lparr>tx_status := REVERSED, note := reason\<rparr> else t"
  have n: "\<not> stale cutoff (?f cur)" by (simp add: stale_def)
  have "length (filter (stale cutoff) (map ?f (txs s))) < length (filter (stale cutoff) (txs s))"
    by (rule filter_map_less [of "stale cutoff" ?f cur "txs s", OF stale_mark assms n])
  then show ?thesis by (simp add: stale_count_def txs_reversed_db)
qed

lemma reverse_stale_count_le:
  "stale_count cutoff (snd (reverse_reservation s p reason now)) \<le> stale_count cutoff s"
proof (cases rule: reverse_cases [of s p reason now])
  case noop
  then show ?thesis by simp
next
  case (failed cur e)
  then show ?thesis by (simp add: stale_count_def)
next
  case (reversed cur)
  then show ?thesis by (simp add: stale_count_reversed_db_le)
qed

lemma reverse_stale_count_less:
  assumes "t \<in> set (txs s)" "stale cutoff t"
    and "reverse_reservation s (pk t) reason now = (Inr r, s1)"
  shows "stale_count cutoff s1 < stale_count cutoff s"
proof (cases rule: reverse_cases [of s "pk t" reason now])
  case noop
  have "objects_get (\<lambda>u. pk u = pk t) s \<noteq> Inr t"
  proof
    assume g: "objects_get (\<lambda>u. pk u = pk t) s = Inr t"
    have pend: "tx_status t = PENDING" using assms(2) by (simp add: stale_def)
    have fits: "refund_note_fits (pk t) reason"
      using reverse_too_long [OF g pend, of reason now] assms(3) by auto
    have "next_pk (snd (reverse_reservation s (pk t) reason now)) = Suc (next_pk s)"
      by (simp add: reverse_pending [OF g pend fits] next_pk_fk_check)
    then show False using noop by simp
  qed
  moreover have "objects_get (\<lambda>u. pk u = pk t) s = Inr t"
  proof (cases "objects_get (\<lambda>u. pk u = pk t) s")
    case (Inl e)
    then show ?thesis using assms(3) by (simp add: reverse_missing)
  next
    case (Inr cur)
    then show ?thesis using objects_get_unique [OF Inr assms(1)] by simp
  qed
  ultimately show ?thesis by simp
next
  case (failed cur e)
  then show ?thesis using assms(3) by simp
next
  case (reversed cur)
  have "t = cur" using objects_get_unique [OF reversed(1) assms(1)] by simp
  then show ?thesis
    using reversed(4) assms stale_count_reversed_db_less [of cur s cutoff reason now] by simp
qed

lemma reverse_each_stale_count_le:
  "stale_count cutoff (snd (reverse_each s ts clk)) \<le> stale_count cutoff s"
proof (induction ts arbitrary: s)
  case Nil
  then show ?case by simp
next
  case (Cons t ts)
  obtain res s1 where r: "reverse_reservation s (pk t) ''expired'' (clk (next_pk s)) = (res, s1)"
    by (cases "reverse_reservation s (pk t) ''expired'' (clk (next_pk s))") 
  have le1: "stale_count cutoff s1 \<le> stale_count cutoff s"
    using reverse_stale_count_le [of cutoff s "pk t" "''expired''" "clk (next_pk s)"] r by simp
  show ?case
  proof (cases res)
    case (Inl e)
    then show ?thesis using r le1 by simp
  next
    case (Inr x)
    then show ?thesis using r le1 Cons.IH [of s1] by simp
  qed
qed

lemma reverse_each_stale_count_less:
  assumes "t \<in> set (txs s)" "stale cutoff t"
    and "reverse_each s (t # ts) clk = (Inr u, s1)"
  shows "stale_count cutoff s1 < stale_count cutoff s"
proof -
  obtain res s0 where r: "reverse_reservation s (pk t) ''expired'' (clk (next_pk s)) = (res, s0)"
    by (cases "reverse_reservation s (pk t) ''expired'' (clk (next_pk s))") 
  show ?thesis
  proof (cases res)
    case (Inl e)
    then show ?thesis using r assms(3) by simp
  next
    case (Inr x)
    then have "stale_count cutoff s0 < stale_count cutoff s"
      using reverse_stale_count_less [OF assms(1,2)] r by simp
    moreover have "s1 = snd (reverse_each s0 ts clk)" using r Inr assms(3) by simp
    ultimately show ?thesis
      using reverse_each_stale_count_le [of cutoff s0 ts clk] by simp
  qed
qed

lemma slice_to_subset: "slice_to c xs = Inr ys \<Longrightarrow> set ys \<subseteq> set xs"
  by (auto simp: slice_to_def split: option.splits if_splits dest: in_set_takeD)

lemma sweep_step_decreases:
  assumes sl: "slice_to chunk_size (sort_key pk (filter (stale cutoff) (txs s))) = Inr batch"
    and ne: "batch \<noteq> []"
    and re: "reverse_each s batch clk = (Inr u, s1)"
  shows "stale_count cutoff s1 < stale_count cutoff s"
proof -
  obtain b bs where b: "batch = b # bs" using ne by (cases batch) auto
  have "b \<in> set (sort_key pk (filter (stale cutoff) (txs s)))"
    using slice_to_subset [OF sl] b by auto
  then have "b \<in> set (txs s)" "stale cutoff b" by simp_all
  then show ?thesis
    using reverse_each_stale_count_less [of b s cutoff bs clk u s1] re b by simp
qed

termination sweep_loop
  apply (relation "measure (\<lambda>(cutoff, chunk_size, clk, s, tot). stale_count cutoff s)")
   apply simp
  apply simp
  apply (rule sweep_step_decreases)
    apply assumption+
  apply (erule sym)
  done

declare sweep_loop.simps [simp del]

section \<open>What a reservation does\<close>

lemma objects_create_row:
  "objects_create s w (- amount) DEBIT PENDING key rid nt now =
     (pending_row s w amount key rid nt now,
      s\<lparr>txs := txs s @ [pending_row s w amount key rid nt now], next_pk := Suc (next_pk s)\<rparr>)"
  by (simp add: objects_create_def pending_row_def Let_def)

lemma conditional_decrement_cases:
  "conditional_decrement s w amount =
     (case wallets s w of
        None \<Rightarrow> (0, s)
      | Some W \<Rightarrow>
          if amount \<le> balance W
          then (1, s\<lparr>wallets := (wallets s)(w \<mapsto> W\<lparr>balance := balance W - amount\<rparr>)\<rparr>)
          else (0, s))"
  by (simp add: conditional_decrement_def)

lemma not_taken_filter:
  "truthy (Some k) \<Longrightarrow> \<not> key_taken s w (Some k) \<Longrightarrow>
     filter (\<lambda>t. wallet_id t = w \<and> idempotency_key t = Some k) (txs s) = []"
  by (simp add: key_taken_def list_ex_iff filter_empty_conv)

lemma get_or_create_fresh:
  "filter (\<lambda>t. wallet_id t = w \<and> idempotency_key t = Some k) (txs s) = [] \<Longrightarrow>
     get_or_create_tx s w amount k rid nt now =
       (Inr (pending_row s w amount (Some k) rid nt now, True),
        s\<lparr>txs := txs s @ [pending_row s w amount (Some k) rid nt now],
          next_pk := Suc (next_pk s)\<rparr>)"
  by (simp add: get_or_create_tx_def objects_get_def objects_create_row)

lemma get_or_create_hit:
  "objects_get (\<lambda>t. wallet_id t = w \<and> idempotency_key t = Some k) s = Inr t \<Longrightarrow>
     get_or_create_tx s w amount k rid nt now = (Inr (t, False), s)"
  by (simp add: get_or_create_tx_def)

lemma reserve_created:
  assumes "0 < amount" "\<not> key_taken s w key"
  shows "ReserveCreditsService s w amount key rid nt now =
     (case wallets s w of
        None \<Rightarrow> (Inl InsufficientCredits, s\<lparr>next_pk := Suc (next_pk s)\<rparr>)
      | Some W \<Rightarrow>
          if amount \<le> balance W
          then (Inr (pending_row s w amount (stored_key key) rid nt now),
                reserved_db s w W amount (pending_row s w amount (stored_key key) rid nt now))
          else (Inl InsufficientCredits, s\<lparr>next_pk := Suc (next_pk s)\<rparr>))"
proof (cases "truthy key")
  case False
  then show ?thesis using assms(1)
    by (simp add: ReserveCreditsService_def validate_amount_def create_tx_def objects_create_row
        conditional_decrement_cases stored_key_def reserved_db_def rollback_def
        split: option.splits)
next
  case True
  then obtain k where k: "key = Some k" by (cases key) (auto simp: truthy_def)
  have "filter (\<lambda>t. wallet_id t = w \<and> idempotency_key t = Some k) (txs s) = []"
    using not_taken_filter True assms(2) k by simp
  then show ?thesis using assms(1) True k
    by (simp add: ReserveCreditsService_def validate_amount_def get_or_create_fresh
        conditional_decrement_cases stored_key_def reserved_db_def rollback_def
        split: option.splits)
qed

lemma reserve_hit:
  assumes "0 < amount" "k \<noteq> []"
    "objects_get (\<lambda>t. wallet_id t = w \<and> idempotency_key t = Some k) s = Inr t"
  shows "ReserveCreditsService s w amount (Some k) rid nt now = (Inr t, s)"
  using assms
  by (simp add: ReserveCreditsService_def validate_amount_def get_or_create_hit truthy_def)

lemma reserve_success_positive:
  "ReserveCreditsService s w amount key rid nt now = (Inr t, s1) \<Longrightarrow> 0 < amount"
  by (cases "amount \<le> 0") (simp_all add: ReserveCreditsService_def validate_amount_def)

section \<open>An empty idempotency key\<close>

text \<open>
  Claim C10. Reserving with the empty string as idempotency key is the same call as
  reserving without a key. So on a wallet that can pay twice, two calls with the key
  \<open>''''\<close> both succeed: they append two different PENDING DEBIT rows whose key is NULL and
  take the amount from the balance twice.
\<close>

theorem reserve_empty_key:
  "ReserveCreditsService s w amount (Some []) rid nt now
     = ReserveCreditsService s w amount None rid nt now \<and>
   (0 < amount \<longrightarrow> wallets s w = Some W \<longrightarrow> 2 * amount \<le> balance W \<longrightarrow>
     (\<exists>t1 s1 t2 s2.
        ReserveCreditsService s w amount (Some []) rid nt now = (Inr t1, s1) \<and>
        ReserveCreditsService s1 w amount (Some []) rid2 nt2 now2 = (Inr t2, s2) \<and>
        txs s2 = txs s @ [t1, t2] \<and> pk t1 \<noteq> pk t2 \<and>
        idempotency_key t1 = None \<and> idempotency_key t2 = None \<and>
        tx_type t1 = DEBIT \<and> tx_type t2 = DEBIT \<and>
        tx_status t1 = PENDING \<and> tx_status t2 = PENDING \<and>
        delta t1 = - amount \<and> delta t2 = - amount \<and>
        map_option balance (wallets s2 w) = Some (balance W - 2 * amount)))"
proof (intro conjI impI)
  show "ReserveCreditsService s w amount (Some []) rid nt now
     = ReserveCreditsService s w amount None rid nt now"
    by (simp add: ReserveCreditsService_def truthy_def)
next
  assume pos: "0 < amount" and W: "wallets s w = Some W" and enough: "2 * amount \<le> balance W"
  have nt: "\<And>s'. \<not> key_taken s' w (Some [])" by (simp add: key_taken_def truthy_def)
  let ?t1 = "pending_row s w amount None rid nt now"
  let ?s1 = "reserved_db s w W amount ?t1"
  let ?t2 = "pending_row ?s1 w amount None rid2 nt2 now2"
  let ?s2 = "reserved_db ?s1 w (W\<lparr>balance := balance W - amount\<rparr>) amount ?t2"
  have 1: "ReserveCreditsService s w amount (Some []) rid nt now = (Inr ?t1, ?s1)"
    using pos W enough by (simp add: reserve_created [OF pos nt] stored_key_def truthy_def)
  have W1: "wallets ?s1 w = Some (W\<lparr>balance := balance W - amount\<rparr>)"
    by (simp add: reserved_db_def)
  have 2: "ReserveCreditsService ?s1 w amount (Some []) rid2 nt2 now2 = (Inr ?t2, ?s2)"
    using pos enough by (simp add: reserve_created [OF pos nt] W1 stored_key_def truthy_def)
  have 3: "txs ?s2 = txs s @ [?t1, ?t2]" by (simp add: reserved_db_def)
  have 4: "pk ?t1 \<noteq> pk ?t2" by (simp add: pending_row_def reserved_db_def)
  have 5: "map_option balance (wallets ?s2 w) = Some (balance W - 2 * amount)"
    by (simp add: reserved_db_def)
  show "\<exists>t1 s1 t2 s2.
        ReserveCreditsService s w amount (Some []) rid nt now = (Inr t1, s1) \<and>
        ReserveCreditsService s1 w amount (Some []) rid2 nt2 now2 = (Inr t2, s2) \<and>
        txs s2 = txs s @ [t1, t2] \<and> pk t1 \<noteq> pk t2 \<and>
        idempotency_key t1 = None \<and> idempotency_key t2 = None \<and>
        tx_type t1 = DEBIT \<and> tx_type t2 = DEBIT \<and>
        tx_status t1 = PENDING \<and> tx_status t2 = PENDING \<and>
        delta t1 = - amount \<and> delta t2 = - amount \<and>
        map_option balance (wallets s2 w) = Some (balance W - 2 * amount)"
    apply (rule exI [of _ ?t1], rule exI [of _ ?s1], rule exI [of _ ?t2], rule exI [of _ ?s2])
    apply (simp only: 1 2 3 4 5 simp_thms)
    apply (simp add: pending_row_def)
    done
qed

theorem reserve_empty_key_witness:
  "0 < (3::int) \<and> wallets demo_db 7 = Some \<lparr>name = ''W'', balance = 10\<rparr> \<and>
   2 * 3 \<le> balance \<lparr>name = ''W'', balance = 10\<rparr> \<and>
   ReserveCreditsService demo_db 7 3 (Some []) None ''api-request'' 0
     = ReserveCreditsService demo_db 7 3 None None ''api-request'' 0 \<and>
   (\<exists>t1 s1 t2 s2.
        ReserveCreditsService demo_db 7 3 (Some []) None ''api-request'' 0 = (Inr t1, s1) \<and>
        ReserveCreditsService s1 7 3 (Some []) None ''api-request'' 5 = (Inr t2, s2) \<and>
        txs s2 = txs demo_db @ [t1, t2] \<and> pk t1 \<noteq> pk t2 \<and>
        idempotency_key t1 = None \<and> idempotency_key t2 = None \<and>
        tx_type t1 = DEBIT \<and> tx_type t2 = DEBIT \<and>
        tx_status t1 = PENDING \<and> tx_status t2 = PENDING \<and>
        delta t1 = - 3 \<and> delta t2 = - 3 \<and>
        map_option balance (wallets s2 7)
          = Some (balance \<lparr>name = ''W'', balance = 10\<rparr> - 2 * 3))"
proof -
  have h1: "0 < (3::int)" by simp
  have h2: "wallets demo_db 7 = Some \<lparr>name = ''W'', balance = 10\<rparr>"
    by (simp add: demo_db_def)
  have h3: "2 * 3 \<le> balance \<lparr>name = ''W'', balance = 10\<rparr>" by simp
  show ?thesis
    using h1 h2 h3
      reserve_empty_key [of demo_db 7 3 None "''api-request''" 0
        "\<lparr>name = ''W'', balance = 10\<rparr>" None "''api-request''" 5]
    by blast
qed

section \<open>Insufficient credits\<close>

text \<open>
  Claim C2. A reservation of a positive amount that is not an idempotent hit, on a wallet
  whose balance is below the amount, fails with \<open>InsufficientCredits\<close> and leaves both
  tables as they were: the PENDING DEBIT row it had inserted is gone and the balance is
  untouched (only the id sequence has moved). Consequently, on a wallet whose balance
  equals the amount, such a reservation succeeds once, leaves the balance at zero, and
  every further one of that amount fails.
\<close>

theorem reserve_insufficient:
  assumes "0 < amount" "\<not> key_taken s w key" "wallets s w = Some W"
  shows "(balance W < amount \<longrightarrow>
            ReserveCreditsService s w amount key rid nt now
              = (Inl InsufficientCredits, s\<lparr>next_pk := Suc (next_pk s)\<rparr>)) \<and>
         (balance W = amount \<longrightarrow>
            (\<exists>t s1. ReserveCreditsService s w amount key rid nt now = (Inr t, s1) \<and>
               map_option balance (wallets s1 w) = Some 0 \<and>
               (\<forall>key2 rid2 nt2 now2. \<not> key_taken s1 w key2 \<longrightarrow>
                  ReserveCreditsService s1 w amount key2 rid2 nt2 now2
                    = (Inl InsufficientCredits, s1\<lparr>next_pk := Suc (next_pk s1)\<rparr>))))"
proof (intro conjI impI)
  assume "balance W < amount"
  then show "ReserveCreditsService s w amount key rid nt now
              = (Inl InsufficientCredits, s\<lparr>next_pk := Suc (next_pk s)\<rparr>)"
    using assms(3) by (simp add: reserve_created [OF assms(1,2)])
next
  assume eq: "balance W = amount"
  let ?t = "pending_row s w amount (stored_key key) rid nt now"
  let ?s1 = "reserved_db s w W amount ?t"
  have 1: "ReserveCreditsService s w amount key rid nt now = (Inr ?t, ?s1)"
    using assms(3) eq by (simp add: reserve_created [OF assms(1,2)])
  have W1: "wallets ?s1 w = Some (W\<lparr>balance := 0\<rparr>)"
    using eq by (simp add: reserved_db_def)
  have 2: "ReserveCreditsService ?s1 w amount key2 rid2 nt2 now2
             = (Inl InsufficientCredits, ?s1\<lparr>next_pk := Suc (next_pk ?s1)\<rparr>)"
    if "\<not> key_taken ?s1 w key2" for key2 rid2 nt2 now2
    using assms(1) by (simp add: reserve_created [OF assms(1) that] W1)
  show "\<exists>t s1. ReserveCreditsService s w amount key rid nt now = (Inr t, s1) \<and>
          map_option balance (wallets s1 w) = Some 0 \<and>
          (\<forall>key2 rid2 nt2 now2. \<not> key_taken s1 w key2 \<longrightarrow>
             ReserveCreditsService s1 w amount key2 rid2 nt2 now2
               = (Inl InsufficientCredits, s1\<lparr>next_pk := Suc (next_pk s1)\<rparr>))"
    apply (rule exI [of _ ?t], rule exI [of _ ?s1])
    apply (intro conjI allI impI)
      apply (rule 1)
     apply (simp add: W1)
    apply (erule 2)
    done
qed

theorem reserve_insufficient_witness:
  "(0 < (12::int) \<and> \<not> key_taken demo_db 7 (Some ''k1'') \<and>
    wallets demo_db 7 = Some \<lparr>name = ''W'', balance = 10\<rparr> \<and>
    balance \<lparr>name = ''W'', balance = 10\<rparr> < 12 \<and>
    ReserveCreditsService demo_db 7 12 (Some ''k1'') None ''api-request'' 0
      = (Inl InsufficientCredits, demo_db\<lparr>next_pk := Suc (next_pk demo_db)\<rparr>)) \<and>
   (0 < (10::int) \<and> \<not> key_taken demo_db 7 None \<and>
    balance \<lparr>name = ''W'', balance = 10\<rparr> = 10 \<and>
    (\<exists>t s1. ReserveCreditsService demo_db 7 10 None None ''api-request'' 0 = (Inr t, s1) \<and>
       map_option balance (wallets s1 7) = Some 0 \<and>
       (\<forall>key2 rid2 nt2 now2. \<not> key_taken s1 7 key2 \<longrightarrow>
          ReserveCreditsService s1 7 10 key2 rid2 nt2 now2
            = (Inl InsufficientCredits, s1\<lparr>next_pk := Suc (next_pk s1)\<rparr>))))"
proof -
  have h1: "0 < (12::int)" by simp
  have h2: "\<not> key_taken demo_db 7 (Some ''k1'')" by (simp add: key_taken_def demo_db_def)
  have h3: "wallets demo_db 7 = Some \<lparr>name = ''W'', balance = 10\<rparr>"
    by (simp add: demo_db_def)
  have h4: "balance \<lparr>name = ''W'', balance = 10\<rparr> < 12" by simp
  have k1: "0 < (10::int)" by simp
  have k2: "\<not> key_taken demo_db 7 None" by (simp add: key_taken_def truthy_def)
  have k4: "balance \<lparr>name = ''W'', balance = 10\<rparr> = 10" by simp
  show ?thesis
    using h1 h2 h3 h4 k1 k2 k4
      reserve_insufficient [OF h1 h2 h3, of None "''api-request''" 0]
      reserve_insufficient [OF k1 k2 h3, of None "''api-request''" 0]
    by blast
qed

section \<open>Repeating a reservation under one idempotency key\<close>

text \<open>
  Claim C3. When a reservation with a non-empty idempotency key has returned a row, the
  same call again (whatever its request id, note and time) returns that same row and
  leaves the store exactly as the first call left it: no insert, no balance change. When
  the key was new to the wallet, the first call took the amount from the balance, so after
  both calls the balance is lower by the amount exactly once.
\<close>

theorem reserve_idempotent:
  assumes "ReserveCreditsService s w n (Some K) rid nt now = (Inr t, s1)" "K \<noteq> []"
  shows "ReserveCreditsService s1 w n (Some K) rid2 nt2 now2 = (Inr t, s1) \<and>
         (\<not> key_taken s w (Some K) \<longrightarrow>
            (\<exists>W. wallets s w = Some W \<and> n \<le> balance W \<and>
                 wallets s1 w = Some (W\<lparr>balance := balance W - n\<rparr>) \<and>
                 txs s1 = txs s @ [t]))"
proof -
  have pos: "0 < n" using assms(1) by (rule reserve_success_positive)
  let ?Q = "\<lambda>t. wallet_id t = w \<and> idempotency_key t = Some K"
  have tr: "truthy (Some K)" using assms(2) by (simp add: truthy_def)
  show ?thesis
  proof (cases "key_taken s w (Some K)")
    case True
    then have ne: "filter ?Q (txs s) \<noteq> []"
      by (simp add: key_taken_def list_ex_iff filter_empty_conv)
    obtain u where u: "objects_get ?Q s = Inr u"
    proof (cases "objects_get ?Q s")
      case (Inl e)
      then have "get_or_create_tx s w n K rid nt now = (Inl MultipleObjectsReturned, s)"
        using ne by (auto simp: get_or_create_tx_def objects_get_def split: list.splits)
      then have "fst (ReserveCreditsService s w n (Some K) rid nt now)
                   = Inl MultipleObjectsReturned"
        using pos tr by (simp add: ReserveCreditsService_def validate_amount_def)
      then show ?thesis using assms(1) by simp
    next
      case (Inr u)
      then show ?thesis using that by simp
    qed
    have "(Inr t, s1) = (Inr u, s)"
      using reserve_hit [OF pos assms(2) u, of rid nt now] assms(1) by simp
    then have g: "objects_get ?Q s = Inr t" and s1: "s1 = s" using u by simp_all
    show ?thesis using True reserve_hit [OF pos assms(2) g] s1 by simp
  next
    case False
    let ?t = "pending_row s w n (Some K) rid nt now"
    from assms(1) obtain W where W: "wallets s w = Some W" "n \<le> balance W"
      and t: "t = ?t" and s1: "s1 = reserved_db s w W n ?t"
      using tr by (auto simp: reserve_created [OF pos False] stored_key_def
          split: option.splits if_splits)
    have "filter ?Q (txs s) = []" using not_taken_filter [OF tr False] .
    then have "filter ?Q (txs s1) = [t]"
      by (simp add: s1 t reserved_db_def pending_row_def)
    then have g: "objects_get ?Q s1 = Inr t" by (simp add: objects_get_def)
    show ?thesis
      using False reserve_hit [OF pos assms(2) g] W
      by (simp add: s1 t reserved_db_def)
  qed
qed

theorem reserve_idempotent_witness:
  "ReserveCreditsService demo_db 7 3 (Some ''k1'') None ''api-request'' 0
     = (Inr (pending_row demo_db 7 3 (Some ''k1'') None ''api-request'' 0),
        reserved_db demo_db 7 \<lparr>name = ''W'', balance = 10\<rparr> 3
          (pending_row demo_db 7 3 (Some ''k1'') None ''api-request'' 0)) \<and>
   ''k1'' \<noteq> [] \<and>
   ReserveCreditsService
       (reserved_db demo_db 7 \<lparr>name = ''W'', balance = 10\<rparr> 3
          (pending_row demo_db 7 3 (Some ''k1'') None ''api-request'' 0))
       7 3 (Some ''k1'') (Some ''again'') ''retry'' 7
     = (Inr (pending_row demo_db 7 3 (Some ''k1'') None ''api-request'' 0),
        reserved_db demo_db 7 \<lparr>name = ''W'', balance = 10\<rparr> 3
          (pending_row demo_db 7 3 (Some ''k1'') None ''api-request'' 0)) \<and>
   map_option balance
     (wallets (reserved_db demo_db 7 \<lparr>name = ''W'', balance = 10\<rparr> 3
          (pending_row demo_db 7 3 (Some ''k1'') None ''api-request'' 0)) 7) = Some 7"
proof -
  have nk: "\<not> key_taken demo_db 7 (Some ''k1'')" by (simp add: key_taken_def demo_db_def)
  have w: "wallets demo_db 7 = Some \<lparr>name = ''W'', balance = 10\<rparr>"
    by (simp add: demo_db_def)
  have h1: "ReserveCreditsService demo_db 7 3 (Some ''k1'') None ''api-request'' 0
     = (Inr (pending_row demo_db 7 3 (Some ''k1'') None ''api-request'' 0),
        reserved_db demo_db 7 \<lparr>name = ''W'', balance = 10\<rparr> 3
          (pending_row demo_db 7 3 (Some ''k1'') None ''api-request'' 0))"
    by (simp add: reserve_created [OF _ nk] stored_key_def truthy_def w)
  have h2: "''k1'' \<noteq> []" by simp
  have b: "map_option balance
     (wallets (reserved_db demo_db 7 \<lparr>name = ''W'', balance = 10\<rparr> 3
          (pending_row demo_db 7 3 (Some ''k1'') None ''api-request'' 0)) 7) = Some 7"
    by (simp add: reserved_db_def)
  show ?thesis
    using h1 h2 b reserve_idempotent [OF h1 h2, of "Some ''again''" "''retry''" 7]
    by blast
qed

section \<open>Commit and reverse as terminal transitions\<close>

lemma commit_pending:
  "objects_get (\<lambda>t. pk t = p) s = Inr cur \<Longrightarrow> tx_status cur = PENDING \<Longrightarrow>
     commit_reservation s p = (Inr (cur\<lparr>tx_status := COMMITTED\<rparr>), save_status s p COMMITTED)"
  by (simp add: commit_reservation_def)

lemma commit_not_pending:
  "objects_get (\<lambda>t. pk t = p) s = Inr cur \<Longrightarrow> tx_status cur \<noteq> PENDING \<Longrightarrow>
     commit_reservation s p = (Inr cur, s)"
  by (simp add: commit_reservation_def)

lemma commit_missing:
  "objects_get (\<lambda>t. pk t = p) s = Inl e \<Longrightarrow> commit_reservation s p = (Inl e, s)"
  by (simp add: commit_reservation_def)

lemma filter_pk_map:
  assumes "\<And>t. pk (f t) = pk t"
  shows "filter (\<lambda>t. pk t = p) (map f xs) = map f (filter (\<lambda>t. pk t = p) xs)"
  by (induction xs) (simp_all add: assms)

lemma settled_noop: "settled s p \<Longrightarrow> settle s p c = (objects_get (\<lambda>t. pk t = p) s, s)"
  by (cases c; cases "objects_get (\<lambda>t. pk t = p) s")
     (simp_all add: settled_def commit_missing commit_not_pending reverse_missing
        reverse_not_pending)

lemma objects_get_map:
  assumes "\<And>t. pk (f t) = pk t" "objects_get (\<lambda>t. pk t = p) s = Inr cur"
    "txs s1 = map f (txs s)"
  shows "objects_get (\<lambda>t. pk t = p) s1 = Inr (f cur)"
proof -
  have "filter (\<lambda>t. pk t = p) (txs s) = [cur]" using assms(2) by (rule objects_get_Inr)
  then have "filter (\<lambda>t. pk t = p) (txs s1) = [f cur]"
    using filter_pk_map [of f p "txs s"] assms(1,3) by simp
  then show ?thesis by (simp add: objects_get_def)
qed

lemma settled_after_commit:
  assumes "commit_reservation s p = (Inr r, s1)"
  shows "settled s1 p"
proof (cases "objects_get (\<lambda>t. pk t = p) s")
  case (Inl e)
  then show ?thesis using assms by (simp add: commit_missing)
next
  case (Inr cur)
  show ?thesis
  proof (cases "tx_status cur = PENDING")
    case False
    then show ?thesis using assms Inr by (simp add: commit_not_pending settled_def)
  next
    case True
    let ?f = "\<lambda>t. if pk t = p then t\<lparr>tx_status := COMMITTED\<rparr> else t"
    have s1: "s1 = save_status s p COMMITTED" using assms commit_pending [OF Inr True] by simp
    have p: "pk cur = p" using objects_get_mem [OF Inr] by simp
    have "objects_get (\<lambda>t. pk t = p) s1 = Inr (?f cur)"
      by (rule objects_get_map [OF _ Inr]) (simp_all add: s1)
    then show ?thesis by (simp add: settled_def p)
  qed
qed

lemma settled_after_reverse:
  assumes "reverse_reservation s p reason now = (Inr r, s1)"
  shows "settled s1 p"
proof (cases rule: reverse_cases [of s p reason now])
  case noop
  then have s1: "s1 = s" using assms by simp
  show ?thesis
  proof (cases "objects_get (\<lambda>t. pk t = p) s")
    case (Inl e)
    then show ?thesis by (simp add: s1 settled_def)
  next
    case (Inr cur)
    have "tx_status cur \<noteq> PENDING"
    proof
      assume pend: "tx_status cur = PENDING"
      have fits: "refund_note_fits p reason"
        using reverse_too_long [OF Inr pend, of reason now] assms by auto
      have "next_pk (snd (reverse_reservation s p reason now)) = Suc (next_pk s)"
        by (simp add: reverse_pending [OF Inr pend fits] next_pk_fk_check)
      then show False using noop by simp
    qed
    then show ?thesis using Inr by (simp add: s1 settled_def)
  qed
next
  case (failed cur e)
  then show ?thesis using assms by simp
next
  case (reversed cur)
  let ?f = "\<lambda>t. if pk t = p then t\<lparr>tx_status := REVERSED, note := reason\<rparr> else t"
  have p: "pk cur = p" using objects_get_mem [OF reversed(1)] by simp
  have s1: "s1 = reversed_db s cur reason now" using assms reversed(4) by simp
  have f: "filter (\<lambda>t. pk t = p) (map ?f (txs s)) = [?f cur]"
    using filter_pk_map [of ?f p "txs s"] objects_get_Inr [OF reversed(1)] by simp
  show ?thesis
  proof (cases "next_pk s = p")
    case True
    then have "filter (\<lambda>t. pk t = p) (txs s1) = [?f cur, refund_row s cur reason now]"
      using f by (simp add: s1 txs_reversed_db p refund_row_def)
    then show ?thesis by (simp add: settled_def objects_get_def)
  next
    case False
    then have "filter (\<lambda>t. pk t = p) (txs s1) = [?f cur]"
      using f by (simp add: s1 txs_reversed_db p refund_row_def)
    then show ?thesis by (simp add: settled_def objects_get_def p)
  qed
qed

lemma settled_fold: "settled s p \<Longrightarrow> foldl (\<lambda>s' c. snd (settle s' p c)) s cs = s"
  by (induction cs) (simp_all add: settled_noop)

section \<open>Commit changes one field\<close>

text \<open>
  Claim C6. Where the id names one row of the ledger, commit on a PENDING row sets that
  row's \<open>tx_status\<close> to COMMITTED and changes nothing else: the wallets, the id sequence,
  the other rows and the row's other fields are as before. On a row that is not PENDING it
  returns the row as it is and the store is unchanged. Hence, once a first commit or
  reverse has returned, any further commit and reverse calls on the same id leave the
  store in the state that first call produced.
\<close>

theorem commit_only_status:
  "(objects_get (\<lambda>t. pk t = p) s = Inr cur \<longrightarrow>
      commit_reservation s p =
        (if tx_status cur = PENDING
         then (Inr (cur\<lparr>tx_status := COMMITTED\<rparr>),
               s\<lparr>txs := map (\<lambda>t. if pk t = p then t\<lparr>tx_status := COMMITTED\<rparr> else t) (txs s)\<rparr>)
         else (Inr cur, s))) \<and>
   (settle s p c = (Inr r, s1) \<longrightarrow> foldl (\<lambda>s' c'. snd (settle s' p c')) s1 cs = s1)"
proof (intro conjI impI)
  assume "objects_get (\<lambda>t. pk t = p) s = Inr cur"
  then show "commit_reservation s p =
        (if tx_status cur = PENDING
         then (Inr (cur\<lparr>tx_status := COMMITTED\<rparr>),
               s\<lparr>txs := map (\<lambda>t. if pk t = p then t\<lparr>tx_status := COMMITTED\<rparr> else t) (txs s)\<rparr>)
         else (Inr cur, s))"
    by (simp add: commit_reservation_def save_status_def)
next
  assume a: "settle s p c = (Inr r, s1)"
  have "settled s1 p"
  proof (cases c)
    case DoCommit
    then show ?thesis using a settled_after_commit by simp
  next
    case (DoReverse reason now)
    then show ?thesis using a settled_after_reverse by simp
  qed
  then show "foldl (\<lambda>s' c'. snd (settle s' p c')) s1 cs = s1" by (rule settled_fold)
qed

lemma demo_held_get: "objects_get (\<lambda>t. pk t = 21) demo_held = Inr demo_hold"
  by (simp add: objects_get_def demo_held_def demo_hold_def)

theorem commit_only_status_witness:
  "objects_get (\<lambda>t. pk t = 21) demo_held = Inr demo_hold \<and>
   commit_reservation demo_held 21 =
     (Inr (demo_hold\<lparr>tx_status := COMMITTED\<rparr>),
      demo_held\<lparr>txs := map (\<lambda>t. if pk t = 21 then t\<lparr>tx_status := COMMITTED\<rparr> else t)
                           (txs demo_held)\<rparr>) \<and>
   settle demo_held 21 DoCommit =
     (Inr (demo_hold\<lparr>tx_status := COMMITTED\<rparr>),
      demo_held\<lparr>txs := map (\<lambda>t. if pk t = 21 then t\<lparr>tx_status := COMMITTED\<rparr> else t)
                           (txs demo_held)\<rparr>) \<and>
   foldl (\<lambda>s' c'. snd (settle s' 21 c'))
      (demo_held\<lparr>txs := map (\<lambda>t. if pk t = 21 then t\<lparr>tx_status := COMMITTED\<rparr> else t)
                           (txs demo_held)\<rparr>)
      [DoReverse ''late'' 5, DoCommit, DoReverse ''again'' 6]
     = demo_held\<lparr>txs := map (\<lambda>t. if pk t = 21 then t\<lparr>tx_status := COMMITTED\<rparr> else t)
                           (txs demo_held)\<rparr>"
proof -
  let ?r = "demo_hold\<lparr>tx_status := COMMITTED\<rparr>"
  let ?s1 = "demo_held\<lparr>txs := map (\<lambda>t. if pk t = 21 then t\<lparr>tx_status := COMMITTED\<rparr> else t)
                           (txs demo_held)\<rparr>"
  note T = commit_only_status [of 21 demo_held demo_hold DoCommit ?r ?s1
      "[DoReverse ''late'' 5, DoCommit, DoReverse ''again'' 6]"]
  have h2: "tx_status demo_hold = PENDING" by (simp add: demo_hold_def)
  have "commit_reservation demo_held 21 =
          (if tx_status demo_hold = PENDING then (Inr ?r, ?s1) else (Inr demo_hold, demo_held))"
    using T demo_held_get by blast
  then have c: "commit_reservation demo_held 21 = (Inr ?r, ?s1)"
    by (simp only: h2 simp_thms if_True)
  then have st: "settle demo_held 21 DoCommit = (Inr ?r, ?s1)" by simp
  then have "foldl (\<lambda>s' c'. snd (settle s' 21 c')) ?s1
      [DoReverse ''late'' 5, DoCommit, DoReverse ''again'' 6] = ?s1"
    using T by blast
  then show ?thesis using demo_held_get c st by blast
qed

section \<open>Reversing a reservation\<close>

lemma reverse_effect:
  assumes "objects_get (\<lambda>t. pk t = p) s = Inr cur" "tx_status cur = PENDING"
    "wallets s (wallet_id cur) = Some W" "refund_note_fits p reason"
  shows "reverse_reservation s p reason now
           = (Inr (cur\<lparr>tx_status := REVERSED, note := reason\<rparr>), reversed_db s cur reason now)"
    and "wallets (reversed_db s cur reason now)
           = (wallets s)(wallet_id cur \<mapsto> W\<lparr>balance := balance W - delta cur\<rparr>)"
proof -
  show "reverse_reservation s p reason now
           = (Inr (cur\<lparr>tx_status := REVERSED, note := reason\<rparr>), reversed_db s cur reason now)"
    using assms(3)
    by (simp add: reverse_pending [OF assms(1,2,4)] fk_check_def wallets_reversed_db)
  show "wallets (reversed_db s cur reason now)
           = (wallets s)(wallet_id cur \<mapsto> W\<lparr>balance := balance W - delta cur\<rparr>)"
    using assms(3) by (intro ext) (simp add: wallets_reversed_db)
qed

lemma consistent_pk_below: "consistent s \<Longrightarrow> t \<in> set (txs s) \<Longrightarrow> pk t < next_pk s"
  by (simp add: consistent_def list_all_iff)

lemma consistent_no_fresh: "consistent s \<Longrightarrow> filter (\<lambda>t. pk t = next_pk s) (txs s) = []"
  using consistent_pk_below by (fastforce simp: filter_empty_conv)

text \<open>
  Claim C5 as stated fails for a long reason: reversing the PENDING DEBIT with id 21 for a
  reason of 230 characters, which fits the note column, raises \<open>DataError\<close>, because the
  refund note "refund of tx 21: <reason>" has 247 characters. Nothing is reversed: the
  ledger and the wallets are as before and the row is still PENDING.
\<close>

theorem reverse_long_reason_counterexample:
  "objects_get (\<lambda>t. pk t = 21) demo_held = Inr demo_hold \<and>
   tx_type demo_hold = DEBIT \<and> tx_status demo_hold = PENDING \<and>
   length (replicate 230 (CHR ''x'')) \<le> 240 \<and>
   length (''refund of tx '' @ str_of_nat 21 @ '': '' @ replicate 230 (CHR ''x'')) = 247 \<and>
   fst (reverse_reservation demo_held 21 (replicate 230 (CHR ''x'')) 200) = Inl DataError \<and>
   txs (snd (reverse_reservation demo_held 21 (replicate 230 (CHR ''x'')) 200)) = [demo_hold] \<and>
   wallets (snd (reverse_reservation demo_held 21 (replicate 230 (CHR ''x'')) 200))
     = wallets demo_held"
proof -
  have pend: "tx_status demo_hold = PENDING" by (simp add: demo_hold_def)
  have nofit: "\<not> refund_note_fits 21 (replicate 230 (CHR ''x''))"
    by (simp add: refund_note_fits_def)
  have l: "length (''refund of tx '' @ str_of_nat 21 @ '': '' @ replicate 230 (CHR ''x'')) = 247"
    by (simp add: str_of_nat.simps digit_char_def)
  have t: "txs demo_held = [demo_hold]" by (simp add: demo_held_def)
  show ?thesis
    using demo_held_get pend l t
    by (simp add: reverse_too_long [OF demo_held_get pend nofit] note_fits_def)
       (simp add: demo_hold_def)
qed

text \<open>
  Claim C5, amended. Take a reason short enough for the refund note
  "refund of tx <id>: <reason>" to fit the 240 characters of the note column. Reversing a
  PENDING row that is the one row with its id, carries a DEBIT's non-positive delta and
  belongs to an existing wallet sets its status to REVERSED and its note to the reason,
  adds \<open>|delta|\<close> to the wallet's balance and appends exactly one row: a COMMITTED REFUND
  of \<open>|delta|\<close> for the same wallet with that note. Hence a successful new reservation
  followed by its reversal leaves the wallets as they were and adds two rows to the
  ledger: the DEBIT, now REVERSED, and its COMMITTED REFUND.
\<close>

theorem reverse_pending_debit:
  "(objects_get (\<lambda>t. pk t = p) s = Inr cur \<longrightarrow> tx_status cur = PENDING \<longrightarrow> delta cur \<le> 0 \<longrightarrow>
    wallets s (wallet_id cur) = Some W \<longrightarrow>
    length (''refund of tx '' @ str_of_nat p @ '': '' @ reason) \<le> 240 \<longrightarrow>
      (\<exists>s1. reverse_reservation s p reason now
               = (Inr (cur\<lparr>tx_status := REVERSED, note := reason\<rparr>), s1) \<and>
         txs s1 =
           map (\<lambda>t. if pk t = p then t\<lparr>tx_status := REVERSED, note := reason\<rparr> else t) (txs s)
           @ [\<lparr>pk = next_pk s, wallet_id = wallet_id cur, delta = \<bar>delta cur\<bar>,
                tx_type = REFUND, tx_status = COMMITTED, idempotency_key = None,
                request_id = None,
                note = ''refund of tx '' @ str_of_nat p @ '': '' @ reason, created_at = now\<rparr>] \<and>
         wallets s1 = (wallets s)(wallet_id cur \<mapsto> W\<lparr>balance := balance W + \<bar>delta cur\<bar>\<rparr>) \<and>
         next_pk s1 = Suc (next_pk s))) \<and>
   (consistent s \<longrightarrow> 0 < amount \<longrightarrow> \<not> key_taken s w key \<longrightarrow> wallets s w = Some W' \<longrightarrow>
    amount \<le> balance W' \<longrightarrow>
    length (''refund of tx '' @ str_of_nat (next_pk s) @ '': '' @ reason) \<le> 240 \<longrightarrow>
      (\<exists>t s1 s2.
         ReserveCreditsService s w amount key rid nt now0 = (Inr t, s1) \<and>
         reverse_reservation s1 (pk t) reason now
           = (Inr (t\<lparr>tx_status := REVERSED, note := reason\<rparr>), s2) \<and>
         wallets s2 = wallets s \<and> tx_type t = DEBIT \<and> delta t = - amount \<and>
         txs s2 =
           txs s @
           [t\<lparr>tx_status := REVERSED, note := reason\<rparr>,
            \<lparr>pk = Suc (next_pk s), wallet_id = w, delta = amount,
                tx_type = REFUND, tx_status = COMMITTED, idempotency_key = None,
                request_id = None,
                note = ''refund of tx '' @ str_of_nat (next_pk s) @ '': '' @ reason,
                created_at = now\<rparr>]))"
proof (intro conjI impI)
  assume g: "objects_get (\<lambda>t. pk t = p) s = Inr cur" and pend: "tx_status cur = PENDING"
    and neg: "delta cur \<le> 0" and W: "wallets s (wallet_id cur) = Some W"
    and len: "length (''refund of tx '' @ str_of_nat p @ '': '' @ reason) \<le> 240"
  have fits: "refund_note_fits p reason" using len by (rule whole_note_fits)
  have p: "pk cur = p" using objects_get_mem [OF g] by simp
  have a: "\<bar>delta cur\<bar> = - delta cur" using neg by simp
  show "\<exists>s1. reverse_reservation s p reason now
               = (Inr (cur\<lparr>tx_status := REVERSED, note := reason\<rparr>), s1) \<and>
         txs s1 =
           map (\<lambda>t. if pk t = p then t\<lparr>tx_status := REVERSED, note := reason\<rparr> else t) (txs s)
           @ [\<lparr>pk = next_pk s, wallet_id = wallet_id cur, delta = \<bar>delta cur\<bar>,
                tx_type = REFUND, tx_status = COMMITTED, idempotency_key = None,
                request_id = None,
                note = ''refund of tx '' @ str_of_nat p @ '': '' @ reason, created_at = now\<rparr>] \<and>
         wallets s1 = (wallets s)(wallet_id cur \<mapsto> W\<lparr>balance := balance W + \<bar>delta cur\<bar>\<rparr>) \<and>
         next_pk s1 = Suc (next_pk s)"
    apply (rule exI [of _ "reversed_db s cur reason now"])
    apply (simp add: reverse_effect [OF g pend W fits] txs_reversed_db refund_row_def p a)
    done
next
  assume c: "consistent s" and pos: "0 < amount" and nk: "\<not> key_taken s w key"
    and W: "wallets s w = Some W'" and enough: "amount \<le> balance W'"
    and len: "length (''refund of tx '' @ str_of_nat (next_pk s) @ '': '' @ reason) \<le> 240"
  let ?t = "pending_row s w amount (stored_key key) rid nt now0"
  let ?s1 = "reserved_db s w W' amount ?t"
  let ?s2 = "reversed_db ?s1 ?t reason now"
  have 1: "ReserveCreditsService s w amount key rid nt now0 = (Inr ?t, ?s1)"
    using W enough by (simp add: reserve_created [OF pos nk])
  have "filter (\<lambda>u. pk u = pk ?t) (txs ?s1) = [?t]"
    using consistent_no_fresh [OF c] by (simp add: reserved_db_def pending_row_def)
  then have g: "objects_get (\<lambda>u. pk u = pk ?t) ?s1 = Inr ?t" by (simp add: objects_get_def)
  have pend: "tx_status ?t = PENDING" by (simp add: pending_row_def)
  have fits: "refund_note_fits (pk ?t) reason"
    using whole_note_fits [OF len] by (simp add: pending_row_def)
  have W1: "wallets ?s1 (wallet_id ?t) = Some (W'\<lparr>balance := balance W' - amount\<rparr>)"
    by (simp add: reserved_db_def pending_row_def)
  have 2: "reverse_reservation ?s1 (pk ?t) reason now
             = (Inr (?t\<lparr>tx_status := REVERSED, note := reason\<rparr>), ?s2)"
    by (rule reverse_effect(1) [OF g pend W1 fits])
  have "wallets ?s2 = (wallets ?s1)(wallet_id ?t \<mapsto>
          (W'\<lparr>balance := balance W' - amount\<rparr>)
            \<lparr>balance := balance (W'\<lparr>balance := balance W' - amount\<rparr>) - delta ?t\<rparr>)"
    by (rule reverse_effect(2) [OF g pend W1 fits])
  then have 3: "wallets ?s2 = wallets s"
    using W by (intro ext) (simp add: reserved_db_def pending_row_def)
  have 4: "txs ?s2 =
           txs s @
           [?t\<lparr>tx_status := REVERSED, note := reason\<rparr>,
            \<lparr>pk = Suc (next_pk s), wallet_id = w, delta = amount,
                tx_type = REFUND, tx_status = COMMITTED, idempotency_key = None,
                request_id = None,
                note = ''refund of tx '' @ str_of_nat (next_pk s) @ '': '' @ reason,
                created_at = now\<rparr>]"
  proof -
    have "\<And>u. u \<in> set (txs s) \<Longrightarrow> pk u \<noteq> next_pk s"
      using consistent_pk_below [OF c] by fastforce
    then have "map (\<lambda>u. if pk u = next_pk s then u\<lparr>tx_status := REVERSED, note := reason\<rparr> else u)
            (txs s) = txs s"
      by (intro map_idI) simp
    then show ?thesis
      by (simp add: txs_reversed_db reserved_db_def refund_row_def pending_row_def)
  qed
  show "\<exists>t s1 s2.
         ReserveCreditsService s w amount key rid nt now0 = (Inr t, s1) \<and>
         reverse_reservation s1 (pk t) reason now
           = (Inr (t\<lparr>tx_status := REVERSED, note := reason\<rparr>), s2) \<and>
         wallets s2 = wallets s \<and> tx_type t = DEBIT \<and> delta t = - amount \<and>
         txs s2 =
           txs s @
           [t\<lparr>tx_status := REVERSED, note := reason\<rparr>,
            \<lparr>pk = Suc (next_pk s), wallet_id = w, delta = amount,
                tx_type = REFUND, tx_status = COMMITTED, idempotency_key = None,
                request_id = None,
                note = ''refund of tx '' @ str_of_nat (next_pk s) @ '': '' @ reason,
                created_at = now\<rparr>]"
    apply (rule exI [of _ ?t], rule exI [of _ ?s1], rule exI [of _ ?s2])
    apply (intro conjI)
         apply (rule 1)
        apply (rule 2)
       apply (rule 3)
      apply (simp add: pending_row_def)
     apply (simp add: pending_row_def)
    apply (rule 4)
    done
qed

lemma consistent_demo_db: "consistent demo_db"
  by (simp add: consistent_def demo_db_def)

lemma str_of_nat_21: "str_of_nat 21 = ''21''"
  by (simp add: str_of_nat.simps digit_char_def)

theorem reverse_pending_debit_witness:
  "(objects_get (\<lambda>t. pk t = 21) demo_held = Inr demo_hold \<and> tx_status demo_hold = PENDING \<and>
    delta demo_hold \<le> 0 \<and>
    wallets demo_held (wallet_id demo_hold) = Some \<lparr>name = ''W'', balance = 7\<rparr> \<and>
    length (''refund of tx '' @ str_of_nat 21 @ '': '' @ ''timeout'') \<le> 240 \<and>
    (\<exists>s1. reverse_reservation demo_held 21 ''timeout'' 200
               = (Inr (demo_hold\<lparr>tx_status := REVERSED, note := ''timeout''\<rparr>), s1) \<and>
         txs s1 =
           map (\<lambda>t. if pk t = 21 then t\<lparr>tx_status := REVERSED, note := ''timeout''\<rparr> else t)
             (txs demo_held)
           @ [\<lparr>pk = next_pk demo_held, wallet_id = wallet_id demo_hold,
                delta = \<bar>delta demo_hold\<bar>,
                tx_type = REFUND, tx_status = COMMITTED, idempotency_key = None,
                request_id = None,
                note = ''refund of tx '' @ str_of_nat 21 @ '': '' @ ''timeout'',
                created_at = 200\<rparr>] \<and>
         wallets s1 = (wallets demo_held)(wallet_id demo_hold \<mapsto>
            \<lparr>name = ''W'', balance = 7\<rparr>
              \<lparr>balance := balance \<lparr>name = ''W'', balance = 7\<rparr> + \<bar>delta demo_hold\<bar>\<rparr>) \<and>
         next_pk s1 = Suc (next_pk demo_held))) \<and>
   (consistent demo_db \<and> 0 < (3::int) \<and> \<not> key_taken demo_db 7 None \<and>
    wallets demo_db 7 = Some \<lparr>name = ''W'', balance = 10\<rparr> \<and>
    3 \<le> balance \<lparr>name = ''W'', balance = 10\<rparr> \<and>
    length (''refund of tx '' @ str_of_nat (next_pk demo_db) @ '': '' @ ''timeout'') \<le> 240 \<and>
    (\<exists>t s1 s2.
         ReserveCreditsService demo_db 7 3 None None ''api-request'' 100 = (Inr t, s1) \<and>
         reverse_reservation s1 (pk t) ''timeout'' 200
           = (Inr (t\<lparr>tx_status := REVERSED, note := ''timeout''\<rparr>), s2) \<and>
         wallets s2 = wallets demo_db \<and> tx_type t = DEBIT \<and> delta t = - 3 \<and>
         txs s2 =
           txs demo_db @
           [t\<lparr>tx_status := REVERSED, note := ''timeout''\<rparr>,
            \<lparr>pk = Suc (next_pk demo_db), wallet_id = 7, delta = 3,
                tx_type = REFUND, tx_status = COMMITTED, idempotency_key = None,
                request_id = None,
                note = ''refund of tx '' @ str_of_nat (next_pk demo_db) @ '': '' @ ''timeout'',
                created_at = 200\<rparr>])) \<and>
   ''refund of tx '' @ str_of_nat 21 @ '': '' @ ''timeout'' = ''refund of tx 21: timeout''"
proof -
  have a1: "tx_status demo_hold = PENDING" by (simp add: demo_hold_def)
  have a2: "delta demo_hold \<le> 0" by (simp add: demo_hold_def)
  have a3: "wallets demo_held (wallet_id demo_hold) = Some \<lparr>name = ''W'', balance = 7\<rparr>"
    by (simp add: demo_held_def demo_hold_def)
  have b1: "0 < (3::int)" by simp
  have b2: "\<not> key_taken demo_db 7 None" by (simp add: key_taken_def truthy_def)
  have b3: "wallets demo_db 7 = Some \<lparr>name = ''W'', balance = 10\<rparr>"
    by (simp add: demo_db_def)
  have b4: "3 \<le> balance \<lparr>name = ''W'', balance = 10\<rparr>" by simp
  have n: "''refund of tx '' @ str_of_nat 21 @ '': '' @ ''timeout'' = ''refund of tx 21: timeout''"
    by (simp add: str_of_nat_21)
  have l1: "length (''refund of tx '' @ str_of_nat 21 @ '': '' @ ''timeout'') \<le> 240"
    by (simp add: str_of_nat_21)
  have l2: "length (''refund of tx '' @ str_of_nat (next_pk demo_db) @ '': '' @ ''timeout'') \<le> 240"
    by (simp add: demo_db_def str_of_nat_21)
  show ?thesis
    using demo_held_get a1 a2 a3 consistent_demo_db b1 b2 b3 b4 n l1 l2
      reverse_pending_debit [where p = 21 and s = demo_held and cur = demo_hold
        and W = "\<lparr>name = ''W'', balance = 7\<rparr>" and reason = "''timeout''" and now = 200]
      reverse_pending_debit [where s = demo_db and amount = 3 and w = 7 and key = None
        and W' = "\<lparr>name = ''W'', balance = 10\<rparr>" and rid = None
        and nt = "''api-request''" and ?now0.0 = 100 and reason = "''timeout''" and now = 200]
    by blast
qed

section \<open>Balances and ledger sums\<close>

lemma abs_sum_append:
  "abs_sum P (xs @ [t]) w = abs_sum P xs w + (if wallet_id t = w \<and> P t then \<bar>delta t\<bar> else 0)"
  by (simp add: abs_sum_def)

lemma abs_sum_map:
  assumes "\<And>t. wallet_id (f t) = wallet_id t" "\<And>t. delta (f t) = delta t" "\<And>t. P (f t) = P t"
  shows "abs_sum P (map f xs) w = abs_sum P xs w"
  unfolding abs_sum_def by (induction xs) (simp_all add: assms)

lemma holds_ok_tables:
  "txs s' = txs s \<Longrightarrow> holds_ok s' w = holds_ok s w"
  by (simp add: holds_ok_def)

lemma keeps_tables: "wallets s' = wallets s \<Longrightarrow> txs s' = txs s \<Longrightarrow> keeps w s s'"
  by (simp add: keeps_def holds_ok_def ledger_quantity_def balance_of_def)

lemma keeps_refl: "keeps w s s"
  by (simp add: keeps_def)

lemma keeps_trans: "keeps w s s1 \<Longrightarrow> keeps w s1 s2 \<Longrightarrow> keeps w s s2"
  by (simp add: keeps_def)

lemma keeps_rollback: "keeps w s (rollback s s1)"
  by (rule keeps_tables) simp_all

lemma keeps_reserved:
  assumes "wallets s w = Some W" "0 < amount" "amount \<le> balance W"
  shows "keeps v s (reserved_db s w W amount (pending_row s w amount key rid nt now))"
  using assms
  by (auto simp: keeps_def holds_ok_def ledger_quantity_def balance_of_def reserved_db_def
      pending_row_def abs_sum_append)

lemma keeps_save_status: "keeps v s (save_status s p COMMITTED)"
proof -
  let ?f = "\<lambda>t. if pk t = p then t\<lparr>tx_status := COMMITTED\<rparr> else t"
  have 1: "abs_sum (\<lambda>t. tx_type t = DEBIT) (map ?f (txs s)) v
             = abs_sum (\<lambda>t. tx_type t = DEBIT) (txs s) v"
    by (rule abs_sum_map) simp_all
  have 2: "abs_sum (\<lambda>t. tx_type t = CREDIT \<or> tx_type t = REFUND) (map ?f (txs s)) v
             = abs_sum (\<lambda>t. tx_type t = CREDIT \<or> tx_type t = REFUND) (txs s) v"
    by (rule abs_sum_map) simp_all
  have 3: "holds_ok s v \<Longrightarrow> holds_ok (save_status s p COMMITTED) v"
    by (auto simp: holds_ok_def list_all_iff)
  show ?thesis
    using 3 by (simp add: keeps_def ledger_quantity_def balance_of_def 1 2)
qed

lemma keeps_reversed:
  assumes "cur \<in> set (txs s)" "tx_status cur = PENDING" "wallets s (wallet_id cur) \<noteq> None"
  shows "keeps v s (reversed_db s cur reason now)"
proof -
  let ?f = "\<lambda>t. if pk t = pk cur then t\<lparr>tx_status := REVERSED, note := reason\<rparr> else t"
  let ?s' = "reversed_db s cur reason now"
  have 1: "abs_sum (\<lambda>t. tx_type t = DEBIT) (map ?f (txs s)) v
             = abs_sum (\<lambda>t. tx_type t = DEBIT) (txs s) v"
    by (rule abs_sum_map) simp_all
  have 2: "abs_sum (\<lambda>t. tx_type t = CREDIT \<or> tx_type t = REFUND) (map ?f (txs s)) v
             = abs_sum (\<lambda>t. tx_type t = CREDIT \<or> tx_type t = REFUND) (txs s) v"
    by (rule abs_sum_map) simp_all
  have 3: "holds_ok s v \<Longrightarrow> holds_ok ?s' v"
    by (auto simp: holds_ok_def list_all_iff txs_reversed_db refund_row_def)
  have b: "balance_of ?s' v
             = (if v = wallet_id cur \<and> wallets s v \<noteq> None then balance_of s v - delta cur
                else balance_of s v)"
    by (auto simp: balance_of_def wallets_reversed_db split: option.splits)
  show ?thesis
  proof (cases "v = wallet_id cur")
    case False
    then show ?thesis
      using 3 by (simp add: keeps_def ledger_quantity_def b txs_reversed_db abs_sum_append 1 2
          refund_row_def)
  next
    case True
    have neg: "holds_ok s v \<Longrightarrow> delta cur \<le> 0"
      using assms(1,2) True by (auto simp: holds_ok_def list_all_iff)
    have b': "balance_of ?s' v = balance_of s v - delta cur"
      using b True assms(3) by simp
    have r: "wallet_id (refund_row s cur reason now) = v"
      "tx_type (refund_row s cur reason now) = REFUND"
      "delta (refund_row s cur reason now) = - delta cur"
      by (simp_all add: refund_row_def True)
    show ?thesis
      unfolding keeps_def
    proof (intro impI conjI)
      assume h: "holds_ok s v"
      show "holds_ok ?s' v" using 3 h by simp
      show "ledger_quantity ?s' v = ledger_quantity s v"
        using neg [OF h]
        by (simp add: ledger_quantity_def b' txs_reversed_db abs_sum_append 1 2 r)
      show "0 \<le> balance_of ?s' v" if "0 \<le> balance_of s v"
        using neg [OF h] that by (simp add: b')
    qed
  qed
qed

lemma reserve_taken:
  assumes "0 < amount" "key_taken s w key"
  shows "snd (ReserveCreditsService s w amount key rid nt now) = s"
proof -
  from assms(2) obtain k where k: "key = Some k" and tr: "truthy key"
    by (cases key) (auto simp: key_taken_def truthy_def)
  let ?Q = "\<lambda>t. wallet_id t = w \<and> idempotency_key t = Some k"
  have ne: "filter ?Q (txs s) \<noteq> []"
    using assms(2) k by (simp add: key_taken_def list_ex_iff filter_empty_conv)
  have "snd (get_or_create_tx s w amount k rid nt now) = s \<and>
        (\<forall>t c. fst (get_or_create_tx s w amount k rid nt now) = Inr (t, c) \<longrightarrow> \<not> c)"
    using ne by (auto simp: get_or_create_tx_def objects_get_def split: list.splits)
  then show ?thesis
    using assms(1) tr k
    by (cases "get_or_create_tx s w amount k rid nt now")
       (auto simp: ReserveCreditsService_def validate_amount_def rollback_def
          split: sum.splits)
qed

lemma keeps_reserve: "keeps v s (snd (ReserveCreditsService s w amount key rid nt now))"
proof (cases "0 < amount")
  case False
  then show ?thesis
    by (simp add: ReserveCreditsService_def validate_amount_def keeps_refl)
next
  case pos: True
  show ?thesis
  proof (cases "key_taken s w key")
    case True
    then show ?thesis by (simp add: reserve_taken [OF pos] keeps_refl)
  next
    case False
    show ?thesis
    proof (cases "wallets s w")
      case None
      then show ?thesis
        by (simp add: reserve_created [OF pos False] keeps_tables)
    next
      case (Some W)
      then show ?thesis
        using pos
        by (simp add: reserve_created [OF pos False] keeps_tables keeps_reserved)
    qed
  qed
qed

lemma keeps_commit: "keeps v s (snd (commit_reservation s p))"
proof (cases "objects_get (\<lambda>t. pk t = p) s")
  case (Inl e)
  then show ?thesis by (simp add: commit_missing keeps_refl)
next
  case (Inr cur)
  then show ?thesis
    by (cases "tx_status cur = PENDING")
       (simp_all add: commit_pending commit_not_pending keeps_refl keeps_save_status)
qed

lemma keeps_reverse: "keeps v s (snd (reverse_reservation s p reason now))"
proof (cases rule: reverse_cases [of s p reason now])
  case noop
  then show ?thesis by (simp add: keeps_refl)
next
  case (failed cur e)
  then show ?thesis by (simp add: keeps_rollback)
next
  case (reversed cur)
  have "cur \<in> set (txs s)" using objects_get_mem [OF reversed(1)] by simp
  then show ?thesis using reversed by (simp add: keeps_reversed)
qed

lemma keeps_top_up: "keeps v s (snd (top_up s w amount nt now))"
proof (cases "0 < amount")
  case False
  then show ?thesis by (simp add: top_up_def keeps_refl)
next
  case pos: True
  let ?row = "\<lparr>pk = next_pk s, wallet_id = w, delta = amount, tx_type = CREDIT,
      tx_status = COMMITTED, idempotency_key = None, request_id = None, note = nt,
      created_at = now\<rparr>"
  let ?s2 = "snd (objects_create (add_balance s w amount) w amount CREDIT COMMITTED None None nt now)"
  have t: "top_up s w amount nt now = fk_check s ?s2 w ?row"
    using pos by (simp add: top_up_def objects_create_def Let_def)
  have txs2: "txs ?s2 = txs s @ [?row]" by (simp add: objects_create_def Let_def)
  have w2: "wallets ?s2 = wallets (add_balance s w amount)"
    by (simp add: objects_create_def Let_def)
  show ?thesis
  proof (cases "wallets s w")
    case None
    then show ?thesis
      by (simp add: t fk_check_def w2 wallets_add_balance keeps_rollback)
  next
    case (Some W)
    have k: "keeps v s ?s2"
      using pos Some
      by (auto simp: keeps_def holds_ok_def ledger_quantity_def balance_of_def txs2 w2
          wallets_add_balance abs_sum_append)
    show ?thesis
      using Some k by (simp add: t fk_check_def w2 wallets_add_balance)
  qed
qed

lemma keeps_reverse_each: "keeps v s (snd (reverse_each s ts clk))"
proof (induction ts arbitrary: s)
  case Nil
  then show ?case by (simp add: keeps_refl)
next
  case (Cons t ts)
  obtain res s1 where r: "reverse_reservation s (pk t) ''expired'' (clk (next_pk s)) = (res, s1)"
    by (cases "reverse_reservation s (pk t) ''expired'' (clk (next_pk s))")
  have k1: "keeps v s s1"
    using keeps_reverse [of v s "pk t" "''expired''" "clk (next_pk s)"] r by simp
  show ?case
  proof (cases res)
    case (Inl e)
    then show ?thesis using r k1 by simp
  next
    case (Inr x)
    then show ?thesis using r keeps_trans [OF k1 Cons.IH [of s1]] by simp
  qed
qed

lemma keeps_sweep_loop: "keeps v s (snd (sweep_loop cutoff chunk_size clk s tot))"
proof (induction cutoff chunk_size clk s tot rule: sweep_loop.induct)
  case (1 cutoff chunk_size clk s tot)
  show ?case
  proof (cases "slice_to chunk_size (sort_key pk (filter (stale cutoff) (txs s)))")
    case (Inl e)
    then show ?thesis by (subst sweep_loop.simps) (simp add: keeps_refl)
  next
    case (Inr batch)
    show ?thesis
    proof (cases "batch = []")
      case True
      then show ?thesis using Inr by (subst sweep_loop.simps) (simp add: keeps_refl)
    next
      case False
      obtain res s1 where r: "reverse_each s batch clk = (res, s1)"
        by (cases "reverse_each s batch clk")
      have k1: "keeps v s s1" using keeps_reverse_each [of v s batch clk] r by simp
      show ?thesis
      proof (cases res)
        case (Inl e)
        then show ?thesis
          using Inr False r by (subst sweep_loop.simps) (simp add: keeps_rollback)
      next
        case (Inr u)
        have "keeps v s1 (snd (sweep_loop cutoff chunk_size clk s1 (tot + length batch)))"
          using "1.IH" [OF \<open>slice_to chunk_size (sort_key pk (filter (stale cutoff) (txs s))) = Inr batch\<close>
              False r [symmetric] Inr] .
        then show ?thesis
          using \<open>slice_to chunk_size (sort_key pk (filter (stale cutoff) (txs s))) = Inr batch\<close>
            False r Inr k1
          by (subst sweep_loop.simps) (simp add: keeps_trans)
      qed
    qed
  qed
qed

lemma keeps_exec_call: "keeps v s (exec_call s c)"
  by (cases c)
     (simp_all add: keeps_reserve keeps_commit keeps_reverse keeps_top_up
        sweep_stale_reservations_def keeps_sweep_loop Let_def)

lemma keeps_run: "keeps v s (run s calls)"
  unfolding run_def
proof (induction calls arbitrary: s)
  case Nil
  then show ?case by (simp add: keeps_refl)
next
  case (Cons c calls)
  show ?case using keeps_trans [OF keeps_exec_call Cons.IH] by simp
qed

section \<open>The balance never goes negative\<close>

text \<open>
  Claim C1. Take a wallet whose balance is not negative and whose holds are well-formed
  (every PENDING row of the wallet has a delta that is not positive, as the rows that
  reserve inserts have; an empty ledger is the simplest case). After any sequence of
  reserve, commit, reverse, top_up and sweep calls its balance is still not negative. In
  particular a reserve call changes the balance of a wallet only if it is the wallet of
  the call, the amount is positive and the balance is at least the amount, and then it
  lowers the balance by the amount.
\<close>

theorem balance_never_negative:
  "(holds_ok s w \<longrightarrow> 0 \<le> balance_of s w \<longrightarrow> 0 \<le> balance_of (run s calls) w) \<and>
   (balance_of (snd (ReserveCreditsService s v amount key rid nt now)) w \<noteq> balance_of s w \<longrightarrow>
      w = v \<and> 0 < amount \<and> amount \<le> balance_of s w \<and>
      balance_of (snd (ReserveCreditsService s v amount key rid nt now)) w
        = balance_of s w - amount)"
proof -
  let ?s' = "snd (ReserveCreditsService s v amount key rid nt now)"
  have A: "0 \<le> balance_of (run s calls) w" if "holds_ok s w" "0 \<le> balance_of s w"
    using keeps_run [of w s calls] that by (simp add: keeps_def)
  have B: "w = v \<and> 0 < amount \<and> amount \<le> balance_of s w \<and>
           balance_of ?s' w = balance_of s w - amount"
    if ch: "balance_of ?s' w \<noteq> balance_of s w"
  proof -
    have pos: "0 < amount"
    proof (rule ccontr)
      assume "\<not> 0 < amount"
      then have "?s' = s" by (simp add: ReserveCreditsService_def validate_amount_def)
      then show False using ch by simp
    qed
    have nk: "\<not> key_taken s v key"
    proof
      assume "key_taken s v key"
      then have "?s' = s" by (rule reserve_taken [OF pos])
      then show False using ch by simp
    qed
    show ?thesis
    proof (cases "wallets s v")
      case None
      then have "wallets ?s' = wallets s" by (simp add: reserve_created [OF pos nk])
      then show ?thesis using ch by (simp add: balance_of_def)
    next
      case (Some W)
      show ?thesis
      proof (cases "amount \<le> balance W")
        case False
        then have "wallets ?s' = wallets s"
          using Some by (simp add: reserve_created [OF pos nk])
        then show ?thesis using ch by (simp add: balance_of_def)
      next
        case True
        then have w': "wallets ?s' = (wallets s)(v \<mapsto> W\<lparr>balance := balance W - amount\<rparr>)"
          using Some by (simp add: reserve_created [OF pos nk] reserved_db_def)
        show ?thesis
        proof (cases "w = v")
          case False
          then show ?thesis using ch w' by (simp add: balance_of_def)
        next
          case wv: True
          then show ?thesis using w' Some pos True by (simp add: balance_of_def)
        qed
      qed
    qed
  qed
  show ?thesis using A B by blast
qed

lemma holds_ok_demo_db: "holds_ok demo_db 7"
  by (simp add: holds_ok_def demo_db_def)

lemma balance_of_demo_db: "balance_of demo_db 7 = 10"
  by (simp add: balance_of_def demo_db_def)

lemma demo_reserve:
  "ReserveCreditsService demo_db 7 3 None None ''api-request'' 0
     = (Inr (pending_row demo_db 7 3 None None ''api-request'' 0),
        reserved_db demo_db 7 \<lparr>name = ''W'', balance = 10\<rparr> 3
          (pending_row demo_db 7 3 None None ''api-request'' 0))"
proof -
  have nk: "\<not> key_taken demo_db 7 None" by (simp add: key_taken_def truthy_def)
  have w: "wallets demo_db 7 = Some \<lparr>name = ''W'', balance = 10\<rparr>"
    by (simp add: demo_db_def)
  show ?thesis by (simp add: reserve_created [OF _ nk] stored_key_def truthy_def w)
qed

theorem balance_never_negative_witness:
  "holds_ok demo_db 7 \<and> 0 \<le> balance_of demo_db 7 \<and>
   0 \<le> balance_of (run demo_db
          [Reserve 7 3 None None ''api-request'' 0, Reverse 21 ''timeout'' 5,
           Reserve 7 10 None None ''api-request'' 6, Commit 23,
           Reserve 7 1 None None ''api-request'' 7, TopUp 7 2 ''top-up'' 8,
           Sweep None 400000000 (\<lambda>n. 400000000) None (Some 500)]) 7 \<and>
   balance_of (snd (ReserveCreditsService demo_db 7 3 None None ''api-request'' 0)) 7
     \<noteq> balance_of demo_db 7 \<and>
   (7::nat) = 7 \<and> 0 < (3::int) \<and> 3 \<le> balance_of demo_db 7 \<and>
   balance_of (snd (ReserveCreditsService demo_db 7 3 None None ''api-request'' 0)) 7
     = balance_of demo_db 7 - 3"
proof -
  have c: "balance_of (snd (ReserveCreditsService demo_db 7 3 None None ''api-request'' 0)) 7
     \<noteq> balance_of demo_db 7"
    by (simp add: demo_reserve balance_of_demo_db) (simp add: balance_of_def reserved_db_def)
  show ?thesis
    using holds_ok_demo_db balance_of_demo_db c
      balance_never_negative [where s = demo_db and w = 7 and v = 7 and amount = 3
        and key = None and rid = None and nt = "''api-request''" and now = 0
        and calls = "[Reserve 7 3 None None ''api-request'' 0, Reverse 21 ''timeout'' 5,
           Reserve 7 10 None None ''api-request'' 6, Commit 23,
           Reserve 7 1 None None ''api-request'' 7, TopUp 7 2 ''top-up'' 8,
           Sweep None 400000000 (\<lambda>n. 400000000) None (Some 500)]"]
    by simp
qed

section \<open>The conserved quantity of a wallet\<close>

lemma demo_reverse:
  "reverse_reservation
     (reserved_db demo_db 7 \<lparr>name = ''W'', balance = 10\<rparr> 3
        (pending_row demo_db 7 3 None None ''api-request'' 0)) 21 ''timeout'' 5
   = (Inr ((pending_row demo_db 7 3 None None ''api-request'' 0)
             \<lparr>tx_status := REVERSED, note := ''timeout''\<rparr>),
      reversed_db
        (reserved_db demo_db 7 \<lparr>name = ''W'', balance = 10\<rparr> 3
           (pending_row demo_db 7 3 None None ''api-request'' 0))
        (pending_row demo_db 7 3 None None ''api-request'' 0) ''timeout'' 5)"
proof -
  let ?t = "pending_row demo_db 7 3 None None ''api-request'' 0"
  let ?s1 = "reserved_db demo_db 7 \<lparr>name = ''W'', balance = 10\<rparr> 3 ?t"
  have g: "objects_get (\<lambda>t. pk t = 21) ?s1 = Inr ?t"
    by (simp add: objects_get_def reserved_db_def pending_row_def demo_db_def)
  have p: "tx_status ?t = PENDING" by (simp add: pending_row_def)
  have w: "wallets ?s1 (wallet_id ?t) = Some (\<lparr>name = ''W'', balance = 10\<rparr>\<lparr>balance := 10 - 3\<rparr>)"
    by (simp add: reserved_db_def pending_row_def)
  have f: "refund_note_fits 21 ''timeout''" by (rule short_reason_fits) simp
  show ?thesis by (rule reverse_effect(1) [OF g p w f])
qed

text \<open>
  Claim C4 as stated fails: reserving three credits and reversing the reservation takes
  the quantity of the specification from 10 to 7, because the REFUND row is subtracted
  while the REVERSED DEBIT is no longer counted.
\<close>

theorem spec_quantity_counterexample:
  "spec_quantity demo_db 7 = 10 \<and>
   spec_quantity
     (run demo_db [Reserve 7 3 None None ''api-request'' 0, Reverse 21 ''timeout'' 5]) 7 = 7"
  by (simp add: run_def demo_reserve demo_reverse)
     (simp add: spec_quantity_def balance_of_def abs_sum_def txs_reversed_db
        wallets_reversed_db reserved_db_def pending_row_def refund_row_def demo_db_def)

text \<open>
  Claim C4, amended. For every wallet whose holds are well-formed (every PENDING row has
  a delta that is not positive), the quantity balance + sum of \<open>|delta|\<close> over all its
  DEBIT rows (PENDING, COMMITTED and REVERSED) - sum of \<open>|delta|\<close> over its CREDIT and
  REFUND rows is preserved by every reserve, commit, reverse, top_up and sweep call; from
  an empty ledger it stays equal to the wallet's initial balance.
\<close>

theorem ledger_quantity_invariant:
  "(holds_ok s w \<longrightarrow> ledger_quantity (run s calls) w = ledger_quantity s w) \<and>
   (txs s = [] \<longrightarrow> ledger_quantity (run s calls) w = balance_of s w)"
proof (intro conjI impI)
  assume "holds_ok s w"
  then show "ledger_quantity (run s calls) w = ledger_quantity s w"
    using keeps_run [of w s calls] by (simp add: keeps_def)
next
  assume e: "txs s = []"
  then have "holds_ok s w" by (simp add: holds_ok_def)
  then have "ledger_quantity (run s calls) w = ledger_quantity s w"
    using keeps_run [of w s calls] by (simp add: keeps_def)
  then show "ledger_quantity (run s calls) w = balance_of s w"
    using e by (simp add: ledger_quantity_def abs_sum_def)
qed

theorem ledger_quantity_invariant_witness:
  "holds_ok demo_db 7 \<and> txs demo_db = [] \<and>
   ledger_quantity
     (run demo_db [Reserve 7 3 None None ''api-request'' 0, Reverse 21 ''timeout'' 5]) 7
     = ledger_quantity demo_db 7 \<and>
   ledger_quantity
     (run demo_db [Reserve 7 3 None None ''api-request'' 0, Reverse 21 ''timeout'' 5]) 7
     = balance_of demo_db 7 \<and>
   balance_of demo_db 7 = 10"
proof -
  have e: "txs demo_db = []" by (simp add: demo_db_def)
  show ?thesis
    using holds_ok_demo_db e balance_of_demo_db
      ledger_quantity_invariant [of demo_db 7
        "[Reserve 7 3 None None ''api-request'' 0, Reverse 21 ''timeout'' 5]"]
    by simp
qed

section \<open>Consistent stores\<close>

lemma consistent_distinct: "consistent s \<Longrightarrow> distinct (map pk (txs s))"
  by (simp add: consistent_def strict_sorted_iff)

lemma consistent_sorted: "consistent s \<Longrightarrow> sorted (map pk (txs s))"
  by (simp add: consistent_def strict_sorted_iff)

lemma consistent_wallet: "consistent s \<Longrightarrow> t \<in> set (txs s) \<Longrightarrow> wallets s (wallet_id t) \<noteq> None"
  by (simp add: consistent_def list_all_iff)

lemma filter_distinct_key:
  "distinct (map f xs) \<Longrightarrow> x \<in> set xs \<Longrightarrow> filter (\<lambda>u. f u = f x) xs = [x]"
proof (induction xs)
  case Nil
  then show ?case by simp
next
  case (Cons a xs)
  show ?case
  proof (cases "x = a")
    case True
    have "f a \<notin> f ` set xs" using Cons.prems(1) by simp
    then have "\<And>u. u \<in> set xs \<Longrightarrow> f u \<noteq> f a" by (metis imageI)
    then have "filter (\<lambda>u. f u = f a) xs = []" by (simp add: filter_empty_conv)
    then show ?thesis using True by simp
  next
    case False
    then have "x \<in> set xs" using Cons.prems(2) by simp
    moreover have "f a \<notin> f ` set xs" using Cons.prems(1) by simp
    ultimately have "f a \<noteq> f x" by (metis imageI)
    then show ?thesis using Cons \<open>x \<in> set xs\<close> by simp
  qed
qed

lemma consistent_get:
  "consistent s \<Longrightarrow> t \<in> set (txs s) \<Longrightarrow> objects_get (\<lambda>u. pk u = pk t) s = Inr t"
  by (simp add: objects_get_def filter_distinct_key [OF consistent_distinct])

lemma consistent_reversed:
  assumes "consistent s" "wallets s (wallet_id cur) \<noteq> None"
  shows "consistent (reversed_db s cur reason now)"
proof -
  let ?f = "\<lambda>t. if pk t = pk cur then t\<lparr>tx_status := REVERSED, note := reason\<rparr> else t"
  have m: "map pk (map ?f (txs s)) = map pk (txs s)" by (induction "txs s") auto
  have m': "map (pk \<circ> ?f) (txs s) = map pk (txs s)" using m by simp
  have 1: "sorted_wrt (<) (map pk (txs (reversed_db s cur reason now)))"
    using assms(1) consistent_pk_below [OF assms(1)]
    by (simp add: txs_reversed_db m' sorted_wrt_append consistent_def refund_row_def)
  have 2: "list_all (\<lambda>t. pk t < Suc (next_pk s) \<and>
              wallets (reversed_db s cur reason now) (wallet_id t) \<noteq> None) (map ?f (txs s))"
    using assms(1)
    by (auto simp: consistent_def list_all_iff wallets_reversed_db less_Suc_eq)
  show ?thesis
    unfolding consistent_def
    using 1 2 assms
    by (simp add: txs_reversed_db refund_row_def wallets_reversed_db consistent_def)
qed

lemma pk_expire [simp]: "pk (expire t) = pk t"
  by (simp add: expire_def)

lemma not_stale_expire [simp]: "\<not> stale cutoff (expire t)"
  by (simp add: stale_def expire_def)

lemma reverse_each_batch:
  assumes "consistent s" "set batch \<subseteq> set (txs s)" "distinct (map pk batch)"
    "\<forall>b\<in>set batch. tx_status b = PENDING"
  shows "\<exists>s' rs. reverse_each s batch clk = (Inr (), s') \<and> consistent s' \<and>
           txs s' = map (\<lambda>t. if pk t \<in> pk ` set batch then expire t else t) (txs s) @ rs \<and>
           length rs = length batch \<and> list_all is_refund rs"
  using assms
proof (induction batch arbitrary: s)
  case Nil
  then show ?case by simp
next
  case (Cons b bs)
  let ?now = "clk (next_pk s)"
  let ?s1 = "reversed_db s b ''expired'' ?now"
  let ?f = "\<lambda>t. if pk t = pk b then t\<lparr>tx_status := REVERSED, note := ''expired''\<rparr> else t"
  have b: "b \<in> set (txs s)" "tx_status b = PENDING" using Cons.prems by simp_all
  have g: "objects_get (\<lambda>u. pk u = pk b) s = Inr b" using consistent_get [OF Cons.prems(1) b(1)] .
  obtain W where W: "wallets s (wallet_id b) = Some W"
    using consistent_wallet [OF Cons.prems(1) b(1)] by auto
  have r: "reverse_reservation s (pk b) ''expired'' ?now
             = (Inr (b\<lparr>tx_status := REVERSED, note := ''expired''\<rparr>), ?s1)"
    by (rule reverse_effect(1) [OF g b(2) W]) (rule short_reason_fits, simp)
  have c1: "consistent ?s1" using W by (intro consistent_reversed [OF Cons.prems(1)]) simp
  have sub: "set bs \<subseteq> set (txs ?s1)"
  proof
    fix x assume x: "x \<in> set bs"
    have "pk b \<notin> pk ` set bs" using Cons.prems(3) by simp
    then have "pk x \<noteq> pk b" using x by (metis imageI)
    moreover have "x \<in> set (txs s)" using x Cons.prems(2) by auto
    ultimately have "x \<in> set (txs s)" "pk x \<noteq> pk b" by simp_all
    then have "?f x \<in> ?f ` set (txs s)" "?f x = x" by simp_all
    then show "x \<in> set (txs ?s1)" by (simp add: txs_reversed_db)
  qed
  from Cons.IH [OF c1 sub] Cons.prems(3,4)
  obtain s' rs where ih: "reverse_each ?s1 bs clk = (Inr (), s')" "consistent s'"
    "txs s' = map (\<lambda>t. if pk t \<in> pk ` set bs then expire t else t) (txs ?s1) @ rs"
    "length rs = length bs" "list_all is_refund rs"
    by auto
  have fresh: "next_pk s \<notin> pk ` set bs"
    using consistent_pk_below [OF Cons.prems(1)] Cons.prems(2) by fastforce
  have "txs s' = map (\<lambda>t. if pk t \<in> pk ` set (b # bs) then expire t else t) (txs s)
                   @ (refund_row s b ''expired'' ?now # rs)"
    using fresh by (simp add: ih(3) txs_reversed_db refund_row_def expire_def)
  moreover have "reverse_each s (b # bs) clk = (Inr (), s')" using r ih(1) by simp
  moreover have "list_all is_refund (refund_row s b ''expired'' ?now # rs)"
    using ih(5) by (simp add: is_refund_def refund_row_def)
  ultimately show ?case using ih(2,4) by fastforce
qed

lemma distinct_pk_eq:
  "distinct (map pk xs) \<Longrightarrow> a \<in> set xs \<Longrightarrow> b \<in> set xs \<Longrightarrow> pk a = pk b \<Longrightarrow> a = b"
  by (auto simp: distinct_map dest: inj_onD)

lemma filter_stale_batch:
  "distinct (map pk xs) \<Longrightarrow>
     filter (stale c)
       (map (\<lambda>t. if pk t \<in> pk ` set (take n (filter (stale c) xs)) then expire t else t) xs)
     = drop n (filter (stale c) xs)"
proof (induction xs arbitrary: n)
  case Nil
  then show ?case by simp
next
  case (Cons x xs)
  let ?F = "filter (stale c) xs"
  have d: "distinct (map pk xs)" and nx: "pk x \<notin> pk ` set xs" using Cons.prems by simp_all
  have sub: "\<And>m. pk ` set (take m ?F) \<subseteq> pk ` set xs"
    by (meson image_mono set_take_subset filter_is_subset order_trans)
  show ?case
  proof (cases "stale c x")
    case False
    have "pk x \<notin> pk ` set (take n ?F)" using nx sub by blast
    then show ?thesis using False Cons.IH [OF d, of n] by simp
  next
    case True
    show ?thesis
    proof (cases n)
      case 0
      then show ?thesis using True by simp
    next
      case (Suc m)
      have eq: "map (\<lambda>t. if pk t = pk x \<or> pk t \<in> pk ` set (take m ?F) then expire t else t) xs
              = map (\<lambda>t. if pk t \<in> pk ` set (take m ?F) then expire t else t) xs"
      proof (rule map_cong [OF refl])
        fix t assume "t \<in> set xs"
        then have "pk t \<noteq> pk x" using nx by (metis imageI)
        then show "(if pk t = pk x \<or> pk t \<in> pk ` set (take m ?F) then expire t else t)
                 = (if pk t \<in> pk ` set (take m ?F) then expire t else t)"
          by simp
      qed
      show ?thesis using True Suc Cons.IH [OF d, of m] by (simp add: eq)
    qed
  qed
qed

lemma expire_batch_then_rest:
  assumes "distinct (map pk xs)" "set B \<subseteq> set (filter (stale c) xs)"
  shows "map (\<lambda>t. if stale c t then expire t else t)
           (map (\<lambda>t. if pk t \<in> pk ` set B then expire t else t) xs)
         = map (\<lambda>t. if stale c t then expire t else t) xs"
proof -
  have "(if stale c (if pk t \<in> pk ` set B then expire t else t)
         then expire (if pk t \<in> pk ` set B then expire t else t)
         else (if pk t \<in> pk ` set B then expire t else t))
        = (if stale c t then expire t else t)" if t: "t \<in> set xs" for t
  proof (cases "pk t \<in> pk ` set B")
    case False
    then show ?thesis by simp
  next
    case True
    then obtain b where b: "b \<in> set B" "pk t = pk b" by auto
    then have "b \<in> set xs" "stale c b" using assms(2) by auto
    then have "t = b" using distinct_pk_eq [OF assms(1) t] b(2) by simp
    then show ?thesis using True \<open>stale c b\<close> by simp
  qed
  then show ?thesis by (simp add: comp_def)
qed

lemma slice_to_take:
  assumes "chunk_size = None \<or> (\<exists>c. chunk_size = Some c \<and> 0 < c)"
  shows "\<exists>n. slice_to chunk_size xs = Inr (take n xs) \<and> (take n xs = [] \<longrightarrow> xs = [])"
proof (cases chunk_size)
  case None
  then have "slice_to chunk_size xs = Inr (take (length xs) xs)" by (simp add: slice_to_def)
  then show ?thesis by fastforce
next
  case (Some c)
  then have "0 < c" using assms by simp
  then have "slice_to chunk_size xs = Inr (take (nat c) xs)" "0 < nat c"
    using Some by (simp_all add: slice_to_def)
  then show ?thesis by (intro exI [of _ "nat c"]) (auto simp: take_eq_Nil)
qed

lemma sweep_loop_correct:
  assumes "consistent s" "chunk_size = None \<or> (\<exists>c. chunk_size = Some c \<and> 0 < c)"
  shows "\<exists>s' rs. sweep_loop cutoff chunk_size clk s tot
                    = (Inr (tot + length (filter (stale cutoff) (txs s))), s') \<and>
           txs s' = map (\<lambda>t. if stale cutoff t then expire t else t) (txs s) @ rs \<and>
           length rs = length (filter (stale cutoff) (txs s)) \<and> list_all is_refund rs"
  using assms
proof (induction cutoff chunk_size clk s tot rule: sweep_loop.induct)
  case (1 cutoff chunk_size clk s tot)
  let ?F = "filter (stale cutoff) (txs s)"
  have srt: "sort_key pk ?F = ?F"
    by (intro sort_key_id_if_sorted sorted_filter consistent_sorted "1.prems"(1))
  obtain n where n: "slice_to chunk_size ?F = Inr (take n ?F)" "take n ?F = [] \<longrightarrow> ?F = []"
    using slice_to_take [OF "1.prems"(2), of ?F] by blast
  let ?B = "take n ?F"
  have sl: "slice_to chunk_size (sort_key pk ?F) = Inr ?B" using n(1) srt by simp
  show ?case
  proof (cases "?B = []")
    case True
    then have e: "?F = []" using n(2) by simp
    then have "\<And>t. t \<in> set (txs s) \<Longrightarrow> \<not> stale cutoff t" by (simp add: filter_empty_conv)
    then have "map (\<lambda>t. if stale cutoff t then expire t else t) (txs s) = txs s"
      by (intro map_idI) simp
    then show ?thesis
      using sl True e
      by (subst sweep_loop.simps) (simp add: is_refund_def)
  next
    case False
    have d: "distinct (map pk (txs s))" using consistent_distinct [OF "1.prems"(1)] .
    have B1: "set ?B \<subseteq> set (txs s)" by (meson set_take_subset filter_is_subset order_trans)
    have "distinct (map pk ?F)" using d by (rule distinct_map_filter)
    then have "distinct (take n (map pk ?F))" by (rule distinct_take)
    then have B2: "distinct (map pk ?B)" by (simp add: take_map)
    have B3: "\<forall>b\<in>set ?B. tx_status b = PENDING"
      using set_take_subset [of n ?F] by (auto simp: stale_def)
    from reverse_each_batch [OF "1.prems"(1) B1 B2 B3, of clk]
    obtain s1 rs1 where s1: "reverse_each s ?B clk = (Inr (), s1)" "consistent s1"
      "txs s1 = map (\<lambda>t. if pk t \<in> pk ` set ?B then expire t else t) (txs s) @ rs1"
      "length rs1 = length ?B" "list_all is_refund rs1"
      by blast
    have nr: "filter (stale cutoff) rs1 = []"
      using s1(5) by (auto simp: filter_empty_conv list_all_iff is_refund_def stale_def)
    have nr': "map (\<lambda>t. if stale cutoff t then expire t else t) rs1 = rs1"
      using s1(5) by (intro map_idI) (auto simp: list_all_iff is_refund_def stale_def)
    have F1: "filter (stale cutoff) (txs s1) = drop n ?F"
      by (simp add: s1(3) nr filter_stale_batch [OF d])
    from "1.IH" [OF sl False s1(1) [symmetric] refl s1(2) "1.prems"(2)]
    obtain s' rs where ih:
      "sweep_loop cutoff chunk_size clk s1 (tot + length ?B)
         = (Inr (tot + length ?B + length (filter (stale cutoff) (txs s1))), s')"
      "txs s' = map (\<lambda>t. if stale cutoff t then expire t else t) (txs s1) @ rs"
      "length rs = length (filter (stale cutoff) (txs s1))" "list_all is_refund rs"
      by blast
    have len: "length ?B + length (drop n ?F) = length ?F"
      by (metis append_take_drop_id length_append)
    have t': "txs s' = map (\<lambda>t. if stale cutoff t then expire t else t) (txs s) @ (rs1 @ rs)"
      using expire_batch_then_rest [OF d, of ?B cutoff] set_take_subset [of n ?F]
      by (simp add: ih(2) s1(3) nr')
    have "sweep_loop cutoff chunk_size clk s tot
            = sweep_loop cutoff chunk_size clk s1 (tot + length ?B)"
      using sl False s1(1) by (subst sweep_loop.simps) simp
    then have "sweep_loop cutoff chunk_size clk s tot = (Inr (tot + length ?F), s')"
      using ih(1) F1 len by simp
    moreover have "length (rs1 @ rs) = length ?F" using ih(3) s1(4) F1 len by simp
    moreover have "list_all is_refund (rs1 @ rs)" using ih(4) s1(5) by simp
    ultimately show ?thesis using t' by blast
  qed
qed

section \<open>What a sweep reverses\<close>

lemma sweep_as_loop:
  "sweep_stale_reservations ttl_setting wall clk now chunk_size s
     = sweep_loop (cutoff_of ttl_setting wall now) chunk_size clk s 0"
  by (simp add: sweep_stale_reservations_def cutoff_of_def Let_def)

text \<open>
  Claim C8. On a consistent store, with the default or any positive chunk size (or none),
  sweep returns normally. It reverses exactly the PENDING rows whose \<open>created_at\<close> is
  strictly less than the cutoff \<open>now - ttl\<close>: each of them becomes REVERSED with the
  note "expired", every other row of the ledger is left as it was, and one COMMITTED
  REFUND row is appended per reversed row. The number returned is the number of rows
  reversed. A row whose \<open>created_at\<close> equals the cutoff is therefore not swept: it is in
  the ledger afterwards unchanged, PENDING if it was PENDING.
\<close>

theorem sweep_reverses_exactly_stale:
  assumes "consistent s" "chunk_size = None \<or> (\<exists>c. chunk_size = Some c \<and> 0 < c)"
  shows "\<exists>s' rs.
           sweep_stale_reservations ttl_setting wall clk now chunk_size s
             = (Inr (length (filter (\<lambda>t. tx_status t = PENDING \<and>
                                    created_at t < cutoff_of ttl_setting wall now) (txs s))), s') \<and>
           txs s' =
             map (\<lambda>t. if tx_status t = PENDING \<and> created_at t < cutoff_of ttl_setting wall now
                      then t\<lparr>tx_status := REVERSED, note := ''expired''\<rparr> else t) (txs s) @ rs \<and>
           length rs = length (filter (\<lambda>t. tx_status t = PENDING \<and>
                                    created_at t < cutoff_of ttl_setting wall now) (txs s)) \<and>
           (\<forall>r\<in>set rs. tx_type r = REFUND \<and> tx_status r = COMMITTED) \<and>
           (\<forall>t\<in>set (txs s). created_at t = cutoff_of ttl_setting wall now \<longrightarrow> t \<in> set (txs s'))"
proof -
  let ?c = "cutoff_of ttl_setting wall now"
  have st: "stale ?c = (\<lambda>t. tx_status t = PENDING \<and> created_at t < ?c)"
    by (intro ext) (simp add: stale_def)
  from sweep_loop_correct [OF assms, of ?c clk 0]
  obtain s' rs where r:
    "sweep_loop ?c chunk_size clk s 0 = (Inr (0 + length (filter (stale ?c) (txs s))), s')"
    "txs s' = map (\<lambda>t. if stale ?c t then expire t else t) (txs s) @ rs"
    "length rs = length (filter (stale ?c) (txs s))" "list_all is_refund rs"
    by blast
  have 1: "sweep_stale_reservations ttl_setting wall clk now chunk_size s
             = (Inr (length (filter (\<lambda>t. tx_status t = PENDING \<and> created_at t < ?c) (txs s))), s')"
    using r(1) by (simp add: sweep_as_loop st)
  have 2: "txs s' =
             map (\<lambda>t. if tx_status t = PENDING \<and> created_at t < ?c
                      then t\<lparr>tx_status := REVERSED, note := ''expired''\<rparr> else t) (txs s) @ rs"
    using r(2) by (simp add: st expire_def)
  have 3: "length rs = length (filter (\<lambda>t. tx_status t = PENDING \<and> created_at t < ?c) (txs s))"
    using r(3) by (simp add: st)
  have 4: "\<forall>r\<in>set rs. tx_type r = REFUND \<and> tx_status r = COMMITTED"
    using r(4) by (simp add: list_all_iff is_refund_def)
  have 5: "\<forall>t\<in>set (txs s). created_at t = ?c \<longrightarrow> t \<in> set (txs s')"
  proof (intro ballI impI)
    fix t assume t: "t \<in> set (txs s)" "created_at t = ?c"
    let ?g = "\<lambda>t. if tx_status t = PENDING \<and> created_at t < ?c
                      then t\<lparr>tx_status := REVERSED, note := ''expired''\<rparr> else t"
    have "?g t = t" using t(2) by simp
    moreover have "?g t \<in> ?g ` set (txs s)" using t(1) by (rule imageI)
    ultimately have "t \<in> ?g ` set (txs s)" by simp
    then show "t \<in> set (txs s')" unfolding 2 by simp
  qed
  show ?thesis using 1 2 3 4 5 by blast
qed

theorem sweep_reverses_exactly_stale_witness:
  "consistent demo_two_holds \<and>
   cutoff_of None 0 (Some 400000000) = 100000000 \<and>
   (\<exists>s' rs.
      sweep_stale_reservations None 0 (\<lambda>n. 400000000) (Some 400000000) (Some 500) demo_two_holds
        = (Inr 1, s') \<and>
      txs s' =
        [\<lparr>pk = 21, wallet_id = 7, delta = - 3, tx_type = DEBIT, tx_status = REVERSED,
           idempotency_key = None, request_id = None, note = ''expired'',
           created_at = 99999999\<rparr>,
         \<lparr>pk = 22, wallet_id = 7, delta = - 2, tx_type = DEBIT, tx_status = PENDING,
           idempotency_key = None, request_id = None, note = ''api-request'',
           created_at = 100000000\<rparr>] @ rs \<and>
      length rs = 1)"
proof -
  have c: "consistent demo_two_holds" by (simp add: consistent_def demo_two_holds_def)
  have k: "Some (500::int) = None \<or> (\<exists>c. Some (500::int) = Some c \<and> 0 < c)" by simp
  have co: "cutoff_of None 0 (Some 400000000) = 100000000" by (simp add: cutoff_of_def)
  show ?thesis
    using c co
      sweep_reverses_exactly_stale [OF c k, of None 0 "\<lambda>n. 400000000" "Some 400000000"]
    by (simp add: demo_two_holds_def) blast
qed

section \<open>The charge wrapper settles every reservation once\<close>

lemma commit_returns:
  assumes "consistent s" "t \<in> set (txs s)"
  shows "\<exists>r. fst (commit_reservation s (pk t)) = Inr r"
  using consistent_get [OF assms]
  by (cases "tx_status t = PENDING") (simp_all add: commit_pending commit_not_pending)

lemma reverse_returns:
  assumes "consistent s" "t \<in> set (txs s)" "refund_note_fits (pk t) reason"
  shows "\<exists>r. fst (reverse_reservation s (pk t) reason now) = Inr r"
proof (cases "tx_status t = PENDING")
  case False
  then show ?thesis using consistent_get [OF assms(1,2)] by (simp add: reverse_not_pending)
next
  case True
  obtain W where "wallets s (wallet_id t) = Some W"
    using consistent_wallet [OF assms(1,2)] by auto
  then show ?thesis
    using reverse_effect(1) [OF consistent_get [OF assms(1,2)] True _ assms(3)] by simp
qed

lemma demo_charge_reserve:
  "ReserveCreditsService demo_db 7 1 (idempotency_header demo_request) (Some ''req-1'')
     ''api-request'' 0 = (Inr demo_charge_tx, demo_charged)"
proof -
  have nk: "\<not> key_taken demo_db 7 None" by (simp add: key_taken_def truthy_def)
  have w: "wallets demo_db 7 = Some \<lparr>name = ''W'', balance = 10\<rparr>"
    by (simp add: demo_db_def)
  have i: "idempotency_header demo_request = None" by (simp add: demo_request_def)
  show ?thesis
    unfolding i demo_charged_def demo_charge_tx_def
    by (simp add: reserve_created [OF _ nk] stored_key_def truthy_def w)
qed

lemma demo_charged_get:
  "objects_get (\<lambda>t. pk t = pk demo_charge_tx) demo_charged = Inr demo_charge_tx"
  by (simp add: objects_get_def demo_charged_def reserved_db_def demo_db_def)

lemma demo_charge_pending: "tx_status demo_charge_tx = PENDING"
  by (simp add: demo_charge_tx_def pending_row_def)

text \<open>
  Claim C7 as stated fails when the view raises something that is not an \<open>Exception\<close>:
  the wrapper catches \<open>Exception\<close> only, so a \<open>SystemExit\<close> raised by the view after a
  successful reservation passes through with neither commit nor reverse. The store is the
  one the view left, the reservation is still PENDING, and either call would have changed
  the store.
\<close>

theorem charge_base_exception_counterexample:
  "ReserveCreditsService demo_db 7 1 (idempotency_header demo_request) (Some ''req-1'')
     ''api-request'' 0 = (Inr demo_charge_tx, demo_charged) \<and>
   view_exiting demo_request demo_charged = (Inl SystemExit, demo_charged) \<and>
   charge_one_credit wallet view_exiting ''req-1'' 0 50 demo_request demo_db
     = (Inl SystemExit, demo_charged) \<and>
   objects_get (\<lambda>t. pk t = pk demo_charge_tx) demo_charged = Inr demo_charge_tx \<and>
   tx_status demo_charge_tx = PENDING \<and>
   snd (commit_reservation demo_charged (pk demo_charge_tx)) \<noteq> demo_charged \<and>
   snd (reverse_reservation demo_charged (pk demo_charge_tx) ''exception'' 50) \<noteq> demo_charged"
proof -
  have w: "wallet demo_request = Some 7" by (simp add: demo_request_def)
  have v: "view_exiting demo_request demo_charged = (Inl SystemExit, demo_charged)"
    by (simp add: view_exiting_def)
  have ch: "charge_one_credit wallet view_exiting ''req-1'' 0 50 demo_request demo_db
     = (Inl SystemExit, demo_charged)"
    by (simp add: charge_one_credit_def w demo_charge_reserve v)
  have "txs (snd (commit_reservation demo_charged (pk demo_charge_tx))) \<noteq> txs demo_charged"
    by (simp add: commit_pending [OF demo_charged_get demo_charge_pending])
       (simp add: demo_charged_def reserved_db_def demo_db_def demo_charge_tx_def
          pending_row_def)
  then have c: "snd (commit_reservation demo_charged (pk demo_charge_tx)) \<noteq> demo_charged"
    by auto
  have f: "refund_note_fits (pk demo_charge_tx) ''exception''"
    by (rule short_reason_fits) simp
  have "next_pk (snd (reverse_reservation demo_charged (pk demo_charge_tx) ''exception'' 50))
          = Suc (next_pk demo_charged)"
    by (simp add: reverse_pending [OF demo_charged_get demo_charge_pending f] next_pk_fk_check)
  then have r: "snd (reverse_reservation demo_charged (pk demo_charge_tx) ''exception'' 50)
                  \<noteq> demo_charged"
    by auto
  show ?thesis
    by (intro conjI demo_charge_reserve v ch demo_charged_get demo_charge_pending c r)
qed

text \<open>
  Claim C7, amended. Take a request whose wallet is resolved and for which reserve has
  returned a reservation \<open>tx\<close>, and let the view run on the store reserve left. When the
  view returns a response or raises an \<open>Exception\<close>, the wrapper makes exactly one
  settling call on the store the view left, and its final store is the one that call
  produces: \<open>commit\<close> when the view returned a response with \<open>200 \<le> status_code < 400\<close>,
  \<open>reverse\<close> with reason "http <code>" when it returned any other status, \<open>reverse\<close>
  with reason "exception" when it raised an \<open>Exception\<close>. When that call returns, the
  wrapper returns the view's response unchanged, or raises the view's exception again.
  The call does return whenever the store the view left is consistent and still holds the
  reservation's row (and the status code has at most 201 characters, so that the reason
  fits into the refund note). When the view raises something that is not an \<open>Exception\<close>
  (\<open>SystemExit\<close>, \<open>KeyboardInterrupt\<close>), it passes through the wrapper, which makes
  neither call.
\<close>

theorem charge_settles_once:
  assumes "get_wallet request = Some w"
    and "ReserveCreditsService s w 1 (idempotency_header request) (Some uuid)
           ''api-request'' now = (Inr tx, s1)"
    and "view_func request s1 = (out, s2)"
  shows
    "(\<forall>response. out = Inr response \<longrightarrow>
        200 \<le> response_code response \<and> response_code response < 400 \<longrightarrow>
          snd (charge_one_credit get_wallet view_func uuid now later request s)
            = snd (commit_reservation s2 (pk tx)) \<and>
          (\<forall>r. fst (commit_reservation s2 (pk tx)) = Inr r \<longrightarrow>
             fst (charge_one_credit get_wallet view_func uuid now later request s)
               = Inr response)) \<and>
     (\<forall>response. out = Inr response \<longrightarrow>
        \<not> (200 \<le> response_code response \<and> response_code response < 400) \<longrightarrow>
          snd (charge_one_credit get_wallet view_func uuid now later request s)
            = snd (reverse_reservation s2 (pk tx)
                     (''http '' @ str_of_int (response_code response)) later) \<and>
          (\<forall>r. fst (reverse_reservation s2 (pk tx)
                       (''http '' @ str_of_int (response_code response)) later) = Inr r \<longrightarrow>
             fst (charge_one_credit get_wallet view_func uuid now later request s)
               = Inr response)) \<and>
     (\<forall>e. out = Inl e \<longrightarrow> is_Exception e \<longrightarrow>
          snd (charge_one_credit get_wallet view_func uuid now later request s)
            = snd (reverse_reservation s2 (pk tx) ''exception'' later) \<and>
          (\<forall>r. fst (reverse_reservation s2 (pk tx) ''exception'' later) = Inr r \<longrightarrow>
             fst (charge_one_credit get_wallet view_func uuid now later request s) = Inl e)) \<and>
     (\<forall>e. out = Inl e \<longrightarrow> \<not> is_Exception e \<longrightarrow>
          charge_one_credit get_wallet view_func uuid now later request s = (Inl e, s2)) \<and>
     (consistent s2 \<and> list_ex (\<lambda>t. pk t = pk tx) (txs s2) \<and>
      (\<forall>response. out = Inr response \<longrightarrow>
         length (str_of_int (response_code response)) \<le> 201) \<longrightarrow>
        fst (charge_one_credit get_wallet view_func uuid now later request s) = out)"
proof -
  let ?ch = "charge_one_credit get_wallet view_func uuid now later request s"
  have ch: "?ch =
      (case out of
         Inl e \<Rightarrow>
           if is_Exception e
           then (case reverse_reservation s2 (pk tx) ''exception'' later of
                   (Inl e', s3) \<Rightarrow> (Inl e', s3)
                 | (Inr _, s3) \<Rightarrow> (Inl e, s3))
           else (Inl e, s2)
       | Inr response \<Rightarrow>
           if 200 \<le> response_code response \<and> response_code response < 400
           then (case commit_reservation s2 (pk tx) of
                   (Inl e', s3) \<Rightarrow> (Inl e', s3)
                 | (Inr _, s3) \<Rightarrow> (Inr response, s3))
           else (case reverse_reservation s2 (pk tx)
                        (''http '' @ str_of_int (response_code response)) later of
                   (Inl e', s3) \<Rightarrow> (Inl e', s3)
                 | (Inr _, s3) \<Rightarrow> (Inr response, s3)))"
    using assms by (simp add: charge_one_credit_def)
  have wrap: "snd (case x of (Inl e', s3) \<Rightarrow> (Inl e', s3) | (Inr _, s3) \<Rightarrow> (y, s3)) = snd x \<and>
              (\<forall>r. fst x = Inr r \<longrightarrow>
                 fst (case x of (Inl e', s3) \<Rightarrow> (Inl e', s3) | (Inr _, s3) \<Rightarrow> (y, s3)) = y)"
    for x :: "CreditTransaction result" and y :: "exn + HttpResponse"
    by (cases x; cases "fst x") auto
  have A1: "snd ?ch = snd (commit_reservation s2 (pk tx)) \<and>
          (\<forall>r. fst (commit_reservation s2 (pk tx)) = Inr r \<longrightarrow> fst ?ch = Inr response)"
    if "out = Inr response" "200 \<le> response_code response \<and> response_code response < 400"
    for response
    using that wrap [where x = "commit_reservation s2 (pk tx)" and y = "Inr response"]
    by (simp add: ch)
  have A2: "snd ?ch = snd (reverse_reservation s2 (pk tx)
                     (''http '' @ str_of_int (response_code response)) later) \<and>
          (\<forall>r. fst (reverse_reservation s2 (pk tx)
                       (''http '' @ str_of_int (response_code response)) later) = Inr r \<longrightarrow>
             fst ?ch = Inr response)"
    if "out = Inr response" "\<not> (200 \<le> response_code response \<and> response_code response < 400)"
    for response
  proof -
    have "?ch = (case reverse_reservation s2 (pk tx)
                        (''http '' @ str_of_int (response_code response)) later of
                   (Inl e', s3) \<Rightarrow> (Inl e', s3)
                 | (Inr _, s3) \<Rightarrow> (Inr response, s3))"
      unfolding ch that(1) by (simp only: sum.case if_not_P [OF that(2)])
    then show ?thesis
      using wrap [where x = "reverse_reservation s2 (pk tx)
                     (''http '' @ str_of_int (response_code response)) later" and y = "Inr response"]
      by simp
  qed
  have A3: "snd ?ch = snd (reverse_reservation s2 (pk tx) ''exception'' later) \<and>
          (\<forall>r. fst (reverse_reservation s2 (pk tx) ''exception'' later) = Inr r \<longrightarrow>
             fst ?ch = Inl e)"
    if "out = Inl e" "is_Exception e" for e
    using that wrap [where x = "reverse_reservation s2 (pk tx) ''exception'' later" and y = "Inl e"]
    by (simp add: ch)
  have A5: "?ch = (Inl e, s2)" if "out = Inl e" "\<not> is_Exception e" for e
    using that by (simp add: ch)
  have A4: "fst ?ch = out"
    if c: "consistent s2" and l: "list_ex (\<lambda>t. pk t = pk tx) (txs s2)"
      and d: "\<forall>response. out = Inr response \<longrightarrow> length (str_of_int (response_code response)) \<le> 201"
  proof -
    from l obtain t where t: "t \<in> set (txs s2)" "pk t = pk tx" by (auto simp: list_ex_iff)
    have cr: "\<exists>r. fst (commit_reservation s2 (pk tx)) = Inr r"
      using commit_returns [OF c t(1)] t(2) by simp
    have rr: "\<exists>r. fst (reverse_reservation s2 (pk tx) reason later) = Inr r"
      if "length reason \<le> 206" for reason
      using reverse_returns [OF c t(1) short_reason_fits [OF that]] t(2) by simp
    show ?thesis
    proof (cases out)
      case (Inl e)
      show ?thesis
      proof (cases "is_Exception e")
        case True
        have "\<exists>r. fst (reverse_reservation s2 (pk tx) ''exception'' later) = Inr r"
          by (rule rr) simp
        then show ?thesis using A3 [OF Inl True] Inl by blast
      next
        case False
        then show ?thesis using A5 [OF Inl] Inl by simp
      qed
    next
      case (Inr response)
      have "length (''http '' @ str_of_int (response_code response)) \<le> 206"
        using d Inr by simp
      then have r2: "\<exists>r. fst (reverse_reservation s2 (pk tx)
                       (''http '' @ str_of_int (response_code response)) later) = Inr r"
        by (rule rr)
      show ?thesis
        using A1 [OF Inr] A2 [OF Inr] cr r2 Inr
        by (cases "200 \<le> response_code response \<and> response_code response < 400") blast+
    qed
  qed
  show ?thesis using A1 A2 A3 A4 A5 by blast
qed

theorem charge_settles_once_witness:
  "wallet demo_request = Some 7 \<and>
   ReserveCreditsService demo_db 7 1 (idempotency_header demo_request) (Some ''req-1'')
     ''api-request'' 0 = (Inr demo_charge_tx, demo_charged) \<and>
   snd (charge_one_credit wallet (view_returning 200) ''req-1'' 0 50
          demo_request demo_db)
     = snd (commit_reservation demo_charged (pk demo_charge_tx)) \<and>
   fst (charge_one_credit wallet (view_returning 200) ''req-1'' 0 50
          demo_request demo_db)
     = Inr (demo_response 200) \<and>
   snd (charge_one_credit wallet (view_returning 500) ''req-1'' 0 50
          demo_request demo_db)
     = snd (reverse_reservation demo_charged (pk demo_charge_tx)
              (''http '' @ str_of_int (response_code (demo_response 500))) 50) \<and>
   fst (charge_one_credit wallet (view_returning 500) ''req-1'' 0 50
          demo_request demo_db)
     = Inr (demo_response 500) \<and>
   is_Exception (ViewError ''boom'') \<and>
   snd (charge_one_credit wallet view_raising ''req-1'' 0 50
          demo_request demo_db)
     = snd (reverse_reservation demo_charged (pk demo_charge_tx) ''exception'' 50) \<and>
   fst (charge_one_credit wallet view_raising ''req-1'' 0 50
          demo_request demo_db)
     = Inl (ViewError ''boom'') \<and>
   \<not> is_Exception SystemExit \<and>
   charge_one_credit wallet view_exiting ''req-1'' 0 50 demo_request demo_db
     = (Inl SystemExit, demo_charged) \<and>
   ''http '' @ str_of_int (response_code (demo_response 500)) = ''http 500''"
proof -
  have w: "wallet demo_request = Some 7" by (simp add: demo_request_def)
  note r = demo_charge_reserve
  have c: "consistent demo_charged"
    by (simp add: consistent_def demo_charged_def demo_charge_tx_def reserved_db_def
        pending_row_def demo_db_def)
  have l: "list_ex (\<lambda>t. pk t = pk demo_charge_tx) (txs demo_charged)"
    by (simp add: demo_charged_def reserved_db_def)
  have ok: "200 \<le> response_code (demo_response 200) \<and> response_code (demo_response 200) < 400"
    by (simp add: response_code_def demo_response_def)
  have bad: "\<not> (200 \<le> response_code (demo_response 500) \<and> response_code (demo_response 500) < 400)"
    by (simp add: response_code_def demo_response_def)
  have v1: "view_returning 200 demo_request demo_charged
              = (Inr (demo_response 200), demo_charged)" by (simp add: view_returning_def)
  have v2: "view_returning 500 demo_request demo_charged
              = (Inr (demo_response 500), demo_charged)" by (simp add: view_returning_def)
  have v3: "view_raising demo_request demo_charged
              = (Inl (ViewError ''boom''), demo_charged)" by (simp add: view_raising_def)
  have v4: "view_exiting demo_request demo_charged = (Inl SystemExit, demo_charged)"
    by (simp add: view_exiting_def)
  have n: "''http '' @ str_of_int (response_code (demo_response 500)) = ''http 500''"
    by (simp add: response_code_def demo_response_def str_of_int_def str_of_nat.simps
        digit_char_def)
  have d1: "\<forall>response. Inr (demo_response 200) = (Inr response :: exn + HttpResponse) \<longrightarrow>
              length (str_of_int (response_code response)) \<le> 201"
    by (simp add: response_code_def demo_response_def str_of_int_def str_of_nat.simps
        digit_char_def)
  have d2: "\<forall>response. Inr (demo_response 500) = (Inr response :: exn + HttpResponse) \<longrightarrow>
              length (str_of_int (response_code response)) \<le> 201"
    by (simp add: response_code_def demo_response_def str_of_int_def str_of_nat.simps
        digit_char_def)
  have d3: "\<forall>response. Inl (ViewError ''boom'') = (Inr response :: exn + HttpResponse) \<longrightarrow>
              length (str_of_int (response_code response)) \<le> 201"
    by simp
  have e1: "is_Exception (ViewError ''boom'')" by simp
  have e2: "\<not> is_Exception SystemExit" by simp
  note T1 = charge_settles_once [where get_wallet = wallet and view_func = "view_returning 200"
        and later = 50, OF w r v1]
  note T2 = charge_settles_once [where get_wallet = wallet and view_func = "view_returning 500"
        and later = 50, OF w r v2]
  note T3 = charge_settles_once [where get_wallet = wallet and view_func = view_raising
        and later = 50, OF w r v3]
  note T4 = charge_settles_once [where get_wallet = wallet and view_func = view_exiting
        and later = 50, OF w r v4]
  have a1: "snd (charge_one_credit wallet (view_returning 200) ''req-1'' 0 50
          demo_request demo_db)
     = snd (commit_reservation demo_charged (pk demo_charge_tx))"
    using T1 ok by blast
  have a2: "fst (charge_one_credit wallet (view_returning 200) ''req-1'' 0 50
          demo_request demo_db) = Inr (demo_response 200)"
    using T1 c l d1 by blast
  have b1: "snd (charge_one_credit wallet (view_returning 500) ''req-1'' 0 50
          demo_request demo_db)
     = snd (reverse_reservation demo_charged (pk demo_charge_tx)
              (''http '' @ str_of_int (response_code (demo_response 500))) 50)"
    using T2 bad by blast
  have b2: "fst (charge_one_credit wallet (view_returning 500) ''req-1'' 0 50
          demo_request demo_db) = Inr (demo_response 500)"
    using T2 c l d2 by blast
  have c1: "snd (charge_one_credit wallet view_raising ''req-1'' 0 50
          demo_request demo_db)
     = snd (reverse_reservation demo_charged (pk demo_charge_tx) ''exception'' 50)"
    using T3 e1 by blast
  have c2: "fst (charge_one_credit wallet view_raising ''req-1'' 0 50
          demo_request demo_db) = Inl (ViewError ''boom'')"
    using T3 c l d3 by blast
  have x1: "charge_one_credit wallet view_exiting ''req-1'' 0 50 demo_request demo_db
     = (Inl SystemExit, demo_charged)"
    using T4 e2 by blast
  show ?thesis
    by (intro conjI w r a1 a2 b1 b2 e1 c1 c2 e2 x1 n)
qed

end
